theory Spec2Isabelle
  imports Complex_Main "HOL-Library.AList"
begin

section \<open>Strings\<close>

text \<open>
  A JavaScript string is modelled by the list of the bytes of its UTF-8 encoding.
  Every regular expression of the pipeline inspects ASCII characters and white space
  only, so a match on the bytes covers the same span as the match on the code units.
\<close>

fun starts_with :: "string \<Rightarrow> string \<Rightarrow> bool" where
  "starts_with s [] = True"
| "starts_with [] (p # ps) = False"
| "starts_with (c # cs) (p # ps) = (c = p \<and> starts_with cs ps)"

text \<open>\<^verbatim>\<open>s.includes(p)\<close>\<close>

fun str_includes :: "string \<Rightarrow> string \<Rightarrow> bool" where
  "str_includes [] p = (p = [])"
| "str_includes (c # cs) p = (starts_with (c # cs) p \<or> str_includes cs p)"

text \<open>The decimal digits of a number, as a template literal prints it.\<close>

definition digit_char :: "nat \<Rightarrow> char" where
  "digit_char d = ''0123456789'' ! d"

fun show_nat :: "nat \<Rightarrow> string" where
  "show_nat n = (if n < 10 then [digit_char n] else show_nat (n div 10) @ [digit_char (n mod 10)])"

declare show_nat.simps [simp del]

text \<open>
  Matching under the \<^verbatim>\<open>i\<close> flag folds the ASCII letters; without the \<^verbatim>\<open>u\<close>
  flag no character outside ASCII is ever folded onto an ASCII letter.
\<close>

definition to_lower :: "char \<Rightarrow> char" where
  "to_lower c =
     (case map_of (zip ''ABCDEFGHIJKLMNOPQRSTUVWXYZ'' ''abcdefghijklmnopqrstuvwxyz'') c of
        Some d \<Rightarrow> d
      | None \<Rightarrow> c)"

fun starts_with_ci :: "string \<Rightarrow> string \<Rightarrow> bool" where
  "starts_with_ci s [] = True"
| "starts_with_ci [] (p # ps) = False"
| "starts_with_ci (c # cs) (p # ps) = (to_lower c = to_lower p \<and> starts_with_ci cs ps)"

text \<open>The index of the first occurrence, case-insensitive, of a pattern.\<close>

fun find_ci :: "string \<Rightarrow> string \<Rightarrow> nat option" where
  "find_ci [] p = (if p = [] then Some 0 else None)"
| "find_ci (c # cs) p =
     (if starts_with_ci (c # cs) p then Some 0 else map_option Suc (find_ci cs p))"

fun find_str :: "string \<Rightarrow> string \<Rightarrow> nat option" where
  "find_str [] p = (if p = [] then Some 0 else None)"
| "find_str (c # cs) p =
     (if starts_with (c # cs) p then Some 0 else map_option Suc (find_str cs p))"

fun index_of :: "char \<Rightarrow> string \<Rightarrow> nat option" where
  "index_of x [] = None"
| "index_of x (c # cs) = (if c = x then Some 0 else map_option Suc (index_of x cs))"

definition ends_with :: "string \<Rightarrow> string \<Rightarrow> bool" where
  "ends_with s p = starts_with (rev s) (rev p)"

subsection \<open>White space\<close>

text \<open>
  The class \<^verbatim>\<open>\s\<close>, which is also what \<^verbatim>\<open>trim\<close> and \<^verbatim>\<open>Number\<close> strip: TAB, LF, VT,
  FF, CR, space, U+00A0, U+1680, U+2000 to U+200A, U+2028, U+2029, U+202F, U+205F,
  U+3000 and U+FEFF. \<open>ws_len s\<close> is the number of bytes of the white-space character
  that opens \<open>s\<close>, and 0 when there is none.
\<close>

definition ascii_ws :: "char list" where
  "ascii_ws = [CHR 0x09, CHR 0x0A, CHR 0x0B, CHR 0x0C, CHR 0x0D, CHR 0x20]"

definition ws3 :: "string list" where
  "ws3 =
     [[CHR 0xE1, CHR 0x9A, CHR 0x80],
      [CHR 0xE2, CHR 0x80, CHR 0x80], [CHR 0xE2, CHR 0x80, CHR 0x81],
      [CHR 0xE2, CHR 0x80, CHR 0x82], [CHR 0xE2, CHR 0x80, CHR 0x83],
      [CHR 0xE2, CHR 0x80, CHR 0x84], [CHR 0xE2, CHR 0x80, CHR 0x85],
      [CHR 0xE2, CHR 0x80, CHR 0x86], [CHR 0xE2, CHR 0x80, CHR 0x87],
      [CHR 0xE2, CHR 0x80, CHR 0x88], [CHR 0xE2, CHR 0x80, CHR 0x89],
      [CHR 0xE2, CHR 0x80, CHR 0x8A],
      [CHR 0xE2, CHR 0x80, CHR 0xA8], [CHR 0xE2, CHR 0x80, CHR 0xA9],
      [CHR 0xE2, CHR 0x80, CHR 0xAF],
      [CHR 0xE2, CHR 0x81, CHR 0x9F],
      [CHR 0xE3, CHR 0x80, CHR 0x80],
      [CHR 0xEF, CHR 0xBB, CHR 0xBF]]"

definition ws_len :: "string \<Rightarrow> nat" where
  "ws_len s =
     (case s of
        [] \<Rightarrow> 0
      | c # cs \<Rightarrow>
          if c \<in> set ascii_ws then 1
          else if starts_with s [CHR 0xC2, CHR 0xA0] then 2
          else if list_ex (starts_with s) ws3 then 3
          else 0)"

text \<open>\<^verbatim>\<open>s.replace(/^\s*/, '')\<close>\<close>

function trim_start :: "string \<Rightarrow> string" where
  "trim_start s = (if ws_len s = 0 then s else trim_start (drop (ws_len s) s))"
  by pat_completeness auto
termination
proof (relation "measure length")
  show "wf (measure length)" by simp
next
  fix s :: string
  assume "ws_len s \<noteq> 0"
  then have "s \<noteq> []" by (auto simp: ws_len_def)
  with \<open>ws_len s \<noteq> 0\<close> show "(drop (ws_len s) s, s) \<in> measure length" by simp
qed

declare trim_start.simps [simp del]

text \<open>The longest suffix that is white space only is cut off.\<close>

fun trim_end :: "string \<Rightarrow> string" where
  "trim_end [] = []"
| "trim_end (c # cs) = (if trim_start (c # cs) = [] then [] else c # trim_end cs)"

definition trim :: "string \<Rightarrow> string" where
  "trim s = trim_end (trim_start s)"

subsection \<open>Code fences\<close>

definition fence :: string where
  "fence = [CHR 0x60, CHR 0x60, CHR 0x60]"

text \<open>\<^verbatim>\<open>s.replace(/\s*```$/, '')\<close>: the leftmost match starts where the white space
  before the closing fence starts.\<close>

definition strip_closing_fence :: "string \<Rightarrow> string" where
  "strip_closing_fence s =
     (if ends_with s fence then trim_end (take (length s - 3) s) else s)"

text \<open>\<^verbatim>\<open>content.replace(/^```markdown\s*/, '').replace(/^```\s*/, '').replace(/\s*```$/, '')\<close>\<close>

definition strip_fences :: "string \<Rightarrow> string" where
  "strip_fences s =
     (let s1 = (if starts_with s (fence @ ''markdown'') then trim_start (drop 11 s) else s);
          s2 = (if starts_with s1 fence then trim_start (drop 3 s1) else s1)
      in strip_closing_fence s2)"

section \<open>The network, as the callers see it\<close>

text \<open>
  One \<^verbatim>\<open>fetch\<close> either rejects (with an \<^verbatim>\<open>AbortError\<close> or with another error
  and its message) or resolves to a response with a status and a body. Of a body the
  callers read \<^verbatim>\<open>error.message\<close> and the first choice's \<^verbatim>\<open>message.content\<close> and
  \<^verbatim>\<open>message.reasoning_content\<close>; \<^verbatim>\<open>json()\<close> may reject, with a message or with an
  \<^verbatim>\<open>AbortError\<close>, and reading \<^verbatim>\<open>choices[0]\<close> of a body without \<^verbatim>\<open>choices\<close> is a
  TypeError.
\<close>

datatype choices =
    Missing
  | First "string option" "string option"

datatype body =
    Unparseable string
  | Body_aborted
  | Parsed "string option" choices

datatype fetch_result =
    Rejects_abort
  | Rejects string
  | Response nat body

text \<open>
  What one loop iteration meets: the state of the cancellation signal at the check
  that opens the iteration, the result of the request, and the state of the signal
  when the \<^verbatim>\<open>catch\<close> block reads it.
\<close>

record attempt =
  aborted_before :: bool
  fetched :: fetch_result
  aborted_after :: bool

datatype thrown = AbortError | Error string

definition response_ok :: "nat \<Rightarrow> bool" where
  "response_ok st = (200 \<le> st \<and> st \<le> 299)"

definition abort_message :: string where
  "abort_message = ''Process aborted by user''"

text \<open>The message of that TypeError, as V8 words it.\<close>

definition type_error_message :: string where
  "type_error_message =
     ''Cannot read properties of undefined (reading '' @ [CHR 0x27, CHR ''0'', CHR 0x27] @ '')''"

text \<open>\<^verbatim>\<open>a || b\<close> on a possibly undefined string: the empty string is falsy.\<close>

definition or_else :: "string option \<Rightarrow> string \<Rightarrow> string" where
  "or_else a b = (case a of None \<Rightarrow> b | Some s \<Rightarrow> if s = [] then b else s)"

section \<open>The OCR caller\<close>

datatype call_result = Aborted | Failed string | Threw_undefined | Success string

record call_trace =
  result :: call_result
  fetches :: nat
  waits :: "nat list"

definition ocr_try :: "fetch_result \<Rightarrow> thrown + string" where
  "ocr_try r =
     (case r of
        Rejects_abort \<Rightarrow> Inl AbortError
      | Rejects m \<Rightarrow> Inl (Error m)
      | Response st b \<Rightarrow>
          if \<not> response_ok st then
            (if st = 401 then Inl (Error ''Invalid API Key'')
             else if st = 429 then Inl (Error ''API Error: 429 Rate Limit Exceeded'')
             else (case b of
                     Unparseable m \<Rightarrow> Inl (Error m)
                   | Body_aborted \<Rightarrow> Inl AbortError
                   | Parsed em _ \<Rightarrow> Inl (Error (or_else em (''API Error: '' @ show_nat st)))))
          else
            (case b of
               Unparseable m \<Rightarrow> Inl (Error m)
             | Body_aborted \<Rightarrow> Inl AbortError
             | Parsed _ Missing \<Rightarrow> Inl (Error type_error_message)
             | Parsed _ (First c _) \<Rightarrow> Inr (strip_fences (or_else c []))))"

definition ocr_wait :: "string \<Rightarrow> nat \<Rightarrow> nat" where
  "ocr_wait m i = (if str_includes m ''429'' then 5000 * (i + 1) else 1000 * 2 ^ i)"

function ocr_loop ::
  "nat \<Rightarrow> (nat \<Rightarrow> attempt) \<Rightarrow> nat \<Rightarrow> call_result \<Rightarrow> nat list \<Rightarrow> call_trace"
where
  "ocr_loop retries env i lastError ws =
     (if i < retries then
        (if aborted_before (env i) then \<lparr>result = Aborted, fetches = i, waits = ws\<rparr>
         else
           (case ocr_try (fetched (env i)) of
              Inr content \<Rightarrow> \<lparr>result = Success content, fetches = i + 1, waits = ws\<rparr>
            | Inl e \<Rightarrow>
                if e = AbortError \<or> aborted_after (env i)
                then \<lparr>result = Aborted, fetches = i + 1, waits = ws\<rparr>
                else
                  (case e of
                     Error m \<Rightarrow>
                       ocr_loop retries env (i + 1) (Failed m)
                         (if i < retries - 1 then ws @ [ocr_wait m i] else ws)
                   | AbortError \<Rightarrow> \<lparr>result = Aborted, fetches = i + 1, waits = ws\<rparr>)))
      else \<lparr>result = lastError, fetches = i, waits = ws\<rparr>)"
  by pat_completeness auto
termination
  by (relation "measure (\<lambda>(retries, env, i, lastError, ws). retries - i)") auto

declare ocr_loop.simps [simp del]

text \<open>
  \<^verbatim>\<open>callOcrModel\<close>: \<open>lastError\<close> starts undefined, the loop starts at 0. The trace
  records the result, the number of requests sent and the back-off delays slept, in
  milliseconds.
\<close>

definition callOcrModel :: "nat \<Rightarrow> (nat \<Rightarrow> attempt) \<Rightarrow> call_trace" where
  "callOcrModel retries env = ocr_loop retries env 0 Threw_undefined []"

text \<open>
  An attempt fails, with message \<open>m\<close>, when the signal is not aborted at either check
  and the request ends in an error other than an \<^verbatim>\<open>AbortError\<close>.
\<close>

definition attempt_fails :: "(nat \<Rightarrow> attempt) \<Rightarrow> nat \<Rightarrow> string \<Rightarrow> bool" where
  "attempt_fails env i m =
     (\<not> aborted_before (env i) \<and> ocr_try (fetched (env i)) = Inl (Error m) \<and>
      \<not> aborted_after (env i))"


section \<open>The noise cleaner\<close>

text \<open>
  \<^verbatim>\<open>s.replace(re, '')\<close> with the \<^verbatim>\<open>g\<close> flag, for a matcher that gives the length of the
  match at the head of the text: the matches are cut out from left to right.
\<close>

function remove_matches :: "(string \<Rightarrow> nat option) \<Rightarrow> string \<Rightarrow> string" where
  "remove_matches m s =
     (if s = [] then []
      else
        (case m s of
           None \<Rightarrow> hd s # remove_matches m (tl s)
         | Some n \<Rightarrow>
             if n = 0 then hd s # remove_matches m (tl s)
             else remove_matches m (drop n s)))"
  by pat_completeness auto
termination
  by (relation "measure (\<lambda>(m, s). length s)") auto

declare remove_matches.simps [simp del]

text \<open>\<^verbatim>\<open>/open.*?close/s\<close>: from the opening marker to the first closing marker after it.\<close>

definition match_span :: "string \<Rightarrow> string \<Rightarrow> string \<Rightarrow> nat option" where
  "match_span opening closing s =
     (if starts_with s opening then
        map_option (\<lambda>j. length opening + j + length closing)
          (find_str (drop (length opening) s) closing)
      else None)"

text \<open>An alternation of literals, tried in their order.\<close>

fun match_any :: "string list \<Rightarrow> string \<Rightarrow> nat option" where
  "match_any [] s = None"
| "match_any (p # ps) s = (if starts_with s p then Some (length p) else match_any ps s)"

definition cleanOcrNoise :: "string \<Rightarrow> string" where
  "cleanOcrNoise text =
     (if text = [] then []
      else
        (let c1 = remove_matches (match_span ''<|det|>'' ''<|/det|>'') text;
             c2 = remove_matches (match_span ''&lt;|det|&gt;'' ''&lt;|/det|&gt;'') c1;
             c3 = remove_matches (match_any [''<|box|>'', ''<|quad|>'']) c2;
             c4 = remove_matches (match_any [''<|/box|>'', ''<|/quad|>'']) c3
         in trim c4))"

section \<open>The table segmenter\<close>

text \<open>
  The length of the match of \<^verbatim>\<open>/<table[^>]*>[\s\S]*?<\/table>/i\<close> that starts at the
  head of \<open>s\<close>: the opening tag runs to the first \<^verbatim>\<open>>\<close>, the lazy body to the first
  closing tag after it.
\<close>

definition match_table_at :: "string \<Rightarrow> nat option" where
  "match_table_at s =
     (if starts_with_ci s ''<table'' then
        (case index_of (CHR ''>'') (drop 6 s) of
           None \<Rightarrow> None
         | Some k \<Rightarrow>
             (case find_ci (drop (6 + k + 1) s) ''</table>'' of
                None \<Rightarrow> None
              | Some j \<Rightarrow> Some (6 + k + 1 + j + 8)))
      else None)"

text \<open>
  \<^verbatim>\<open>rawOcrText.split(/(<table[^>]*>[\s\S]*?<\/table>)/i)\<close>: the text up to the next match,
  the match (the capture group), and so on. The expression matches no empty text; a
  match of length 0 is treated as no match.
\<close>

function split_loop :: "string \<Rightarrow> string \<Rightarrow> string list" where
  "split_loop acc s =
     (if s = [] then [acc]
      else
        (case match_table_at s of
           None \<Rightarrow> split_loop (acc @ [hd s]) (tl s)
         | Some n \<Rightarrow>
             if n = 0 then split_loop (acc @ [hd s]) (tl s)
             else acc # take n s # split_loop [] (drop n s)))"
  by pat_completeness auto
termination
  by (relation "measure (\<lambda>(acc, s). length s)") auto

declare split_loop.simps [simp del]

definition split_tables :: "string \<Rightarrow> string list" where
  "split_tables s = split_loop [] s"

text \<open>\<^verbatim>\<open>part.match(/^<table/i)\<close>\<close>

definition is_table_part :: "string \<Rightarrow> bool" where
  "is_table_part part = starts_with_ci part ''<table''"

text \<open>A complete table block starts somewhere in the text.\<close>

fun has_block :: "string \<Rightarrow> bool" where
  "has_block [] = False"
| "has_block (c # cs) = (match_table_at (c # cs) \<noteq> None \<or> has_block cs)"

text \<open>The part is one table block, from its opening tag to its first closing tag.\<close>

definition is_block :: "string \<Rightarrow> bool" where
  "is_block part = (match_table_at part = Some (length part))"

text \<open>
  The shape of a split: text without a block, then a block, and so on, ending in text
  without a block; the text before a block does not begin with \<^verbatim>\<open><table\<close>.
\<close>

fun well_split :: "string list \<Rightarrow> bool" where
  "well_split [] = False"
| "well_split [p] = (\<not> has_block p)"
| "well_split (p # b # rest) =
     (\<not> has_block p \<and> \<not> is_table_part p \<and> is_block b \<and> is_table_part b \<and> well_split rest)"

section \<open>The restoration caller\<close>

text \<open>
  \<^verbatim>\<open>finalContent.replace(/^```(markdown|html|xml)?\s*/i, '').replace(/\s*```$/i, '').trim()\<close>:
  the alternatives of the optional group are tried in their order.
\<close>

definition clean_restored :: "string \<Rightarrow> string" where
  "clean_restored s =
     (let s1 =
        (if starts_with s fence then
           (let r = drop 3 s;
                r' = (if starts_with_ci r ''markdown'' then drop 8 r
                      else if starts_with_ci r ''html'' then drop 4 r
                      else if starts_with_ci r ''xml'' then drop 3 r
                      else r)
            in trim_start r')
         else s)
      in trim (strip_closing_fence s1))"

text \<open>\<^verbatim>\<open>/<table/i.test(text)\<close>\<close>

definition has_table_tag :: "string \<Rightarrow> bool" where
  "has_table_tag s = (find_ci s ''<table'' \<noteq> None)"

text \<open>
  \<^verbatim>\<open>/\|[\s-]*:?---[\s-]*\|/.test(text)\<close>. \<open>wsd_len\<close> is the length of a leading character
  of the class \<^verbatim>\<open>[\s-]\<close>. After the three dashes only the whole run of that class can be
  followed by the bar; before them the run may stop anywhere.
\<close>

definition wsd_len :: "string \<Rightarrow> nat" where
  "wsd_len s = (case s of [] \<Rightarrow> 0 | c # cs \<Rightarrow> if c = CHR ''-'' then 1 else ws_len s)"

function skip_wsd :: "string \<Rightarrow> string" where
  "skip_wsd s = (if wsd_len s = 0 then s else skip_wsd (drop (wsd_len s) s))"
  by pat_completeness auto
termination
proof (relation "measure length")
  show "wf (measure length)" by simp
next
  fix s :: string
  assume "wsd_len s \<noteq> 0"
  then have "s \<noteq> []" by (auto simp: wsd_len_def)
  with \<open>wsd_len s \<noteq> 0\<close> show "(drop (wsd_len s) s, s) \<in> measure length" by simp
qed

declare skip_wsd.simps [simp del]

definition md_dashes :: "string \<Rightarrow> bool" where
  "md_dashes s = (starts_with s ''---'' \<and> starts_with (skip_wsd (drop 3 s)) ''|'')"

definition md_colon :: "string \<Rightarrow> bool" where
  "md_colon s = (md_dashes s \<or> (starts_with s '':'' \<and> md_dashes (drop 1 s)))"

function md_sep :: "string \<Rightarrow> bool" where
  "md_sep s =
     (if md_colon s then True
      else if wsd_len s = 0 then False
      else md_sep (drop (wsd_len s) s))"
  by pat_completeness auto
termination
proof (relation "measure length")
  show "wf (measure length)" by simp
next
  fix s :: string
  assume "wsd_len s \<noteq> 0"
  then have "s \<noteq> []" by (auto simp: wsd_len_def)
  with \<open>wsd_len s \<noteq> 0\<close> show "(drop (wsd_len s) s, s) \<in> measure length" by simp
qed

declare md_sep.simps [simp del]

fun has_md_table :: "string \<Rightarrow> bool" where
  "has_md_table [] = False"
| "has_md_table (c # cs) = ((c = CHR ''|'' \<and> md_sep cs) \<or> has_md_table cs)"

text \<open>
  The \<^verbatim>\<open>try\<close> block for one table segment: the cleaned content of the first choice, or
  what is thrown.
\<close>

definition restore_try :: "fetch_result \<Rightarrow> thrown + string" where
  "restore_try r =
     (case r of
        Rejects_abort \<Rightarrow> Inl AbortError
      | Rejects m \<Rightarrow> Inl (Error m)
      | Response st b \<Rightarrow>
          if \<not> response_ok st then
            (if st = 429 then Inl (Error ''429 Rate Limit'')
             else Inl (Error (''API Error: '' @ show_nat st)))
          else
            (case b of
               Unparseable m \<Rightarrow> Inl (Error m)
             | Body_aborted \<Rightarrow> Inl AbortError
             | Parsed _ Missing \<Rightarrow> Inl (Error type_error_message)
             | Parsed _ (First c _) \<Rightarrow> Inr (clean_restored (or_else c []))))"

definition restore_wait :: "string \<Rightarrow> nat \<Rightarrow> nat" where
  "restore_wait m i = (if str_includes m ''429'' then 2000 * (i + 1) else 1000)"

text \<open>
  What a part resolves to: it is returned as it is (not a table), the model's answer
  replaces it, the original table is kept after the last failure, or the call is
  aborted.
\<close>

datatype seg_result = Seg_plain string | Seg_restored string | Seg_fallback string | Seg_aborted

record seg_trace =
  seg_result :: seg_result
  seg_fetches :: nat
  seg_waits :: "nat list"

function restore_loop ::
  "nat \<Rightarrow> (nat \<Rightarrow> attempt) \<Rightarrow> string \<Rightarrow> nat \<Rightarrow> nat list \<Rightarrow> seg_trace"
where
  "restore_loop retries env tableHtml i ws =
     (if i < retries then
        (if aborted_before (env i)
         then \<lparr>seg_result = Seg_aborted, seg_fetches = i, seg_waits = ws\<rparr>
         else
           (case restore_try (fetched (env i)) of
              Inr finalContent \<Rightarrow>
                \<lparr>seg_result = Seg_restored finalContent, seg_fetches = i + 1, seg_waits = ws\<rparr>
            | Inl e \<Rightarrow>
                if e = AbortError \<or> aborted_after (env i)
                then \<lparr>seg_result = Seg_aborted, seg_fetches = i + 1, seg_waits = ws\<rparr>
                else
                  (case e of
                     Error m \<Rightarrow>
                       if i = retries - 1
                       then \<lparr>seg_result = Seg_fallback tableHtml, seg_fetches = i + 1,
                             seg_waits = ws\<rparr>
                       else restore_loop retries env tableHtml (i + 1) (ws @ [restore_wait m i])
                   | AbortError \<Rightarrow>
                       \<lparr>seg_result = Seg_aborted, seg_fetches = i + 1, seg_waits = ws\<rparr>)))
      else \<lparr>seg_result = Seg_fallback tableHtml, seg_fetches = i, seg_waits = ws\<rparr>)"
  by pat_completeness auto
termination
  by (relation "measure (\<lambda>(retries, env, tableHtml, i, ws). retries - i)") auto

declare restore_loop.simps [simp del]

text \<open>The callback of \<^verbatim>\<open>parts.map\<close>, for one part.\<close>

definition process_part :: "nat \<Rightarrow> (nat \<Rightarrow> attempt) \<Rightarrow> string \<Rightarrow> seg_trace" where
  "process_part retries env part =
     (if \<not> is_table_part part
      then \<lparr>seg_result = Seg_plain part, seg_fetches = 0, seg_waits = []\<rparr>
      else restore_loop retries env part 0 [])"

fun seg_text :: "seg_result \<Rightarrow> string" where
  "seg_text (Seg_plain s) = s"
| "seg_text (Seg_restored s) = s"
| "seg_text (Seg_fallback s) = s"
| "seg_text Seg_aborted = []"

text \<open>\<^verbatim>\<open>hasAnyRealTable\<close> is set by an answer that holds an HTML or a Markdown table,
  \<^verbatim>\<open>hasAnyCleaned\<close> by any other answer.\<close>

fun kept_as_table :: "seg_result \<Rightarrow> bool" where
  "kept_as_table (Seg_restored s) = (has_table_tag s \<or> has_md_table s)"
| "kept_as_table _ = False"

fun converted_to_text :: "seg_result \<Rightarrow> bool" where
  "converted_to_text (Seg_restored s) = (\<not> (has_table_tag s \<or> has_md_table s))"
| "converted_to_text _ = False"

text \<open>
  \<^verbatim>\<open>callLayoutRestorationModel\<close>. The parts are processed by concurrent tasks, part \<open>k\<close>
  meeting the attempts \<open>env k\<close>; \<^verbatim>\<open>Promise.all\<close> rejects when a task throws, and a
  task throws on cancellation only. The reasoning log, which no branch reads, is left
  out. \<open>requests\<close> counts the requests sent for all parts.
\<close>

record restoration_result =
  content :: string
  hasRealTable :: bool
  cleaned :: bool

record restoration_trace =
  restoration :: "restoration_result option"
  requests :: nat

definition part_traces :: "nat \<Rightarrow> (nat \<Rightarrow> nat \<Rightarrow> attempt) \<Rightarrow> string list \<Rightarrow> seg_trace list" where
  "part_traces retries env parts =
     map (\<lambda>(index, part). process_part retries (env index) part) (zip [0..<length parts] parts)"

definition callLayoutRestorationModel ::
  "nat \<Rightarrow> (nat \<Rightarrow> nat \<Rightarrow> attempt) \<Rightarrow> string \<Rightarrow> restoration_trace"
where
  "callLayoutRestorationModel retries env rawOcrText =
     (let parts = split_tables rawOcrText in
      if length parts \<le> 1 then
        \<lparr>restoration = Some \<lparr>content = rawOcrText, hasRealTable = False, cleaned = False\<rparr>,
         requests = 0\<rparr>
      else
        (let processedParts = part_traces retries env parts in
         \<lparr>restoration =
            (if list_ex (\<lambda>t. seg_result t = Seg_aborted) processedParts then None
             else Some \<lparr>content = concat (map (seg_text \<circ> seg_result) processedParts),
                        hasRealTable = list_ex (kept_as_table \<circ> seg_result) processedParts,
                        cleaned = list_ex (converted_to_text \<circ> seg_result) processedParts\<rparr>),
          requests = sum_list (map seg_fetches processedParts)\<rparr>))"

text \<open>An attempt at a table segment fails, with message \<open>m\<close>, and is not cancelled.\<close>

definition restore_fails :: "(nat \<Rightarrow> attempt) \<Rightarrow> nat \<Rightarrow> string \<Rightarrow> bool" where
  "restore_fails env i m =
     (\<not> aborted_before (env i) \<and> restore_try (fetched (env i)) = Inl (Error m) \<and>
      \<not> aborted_after (env i))"

text \<open>What part \<open>k\<close> of the split contributes to the reassembled page.\<close>

definition resolved_part :: "(nat \<Rightarrow> nat \<Rightarrow> attempt) \<Rightarrow> string list \<Rightarrow> nat \<Rightarrow> string" where
  "resolved_part env parts k =
     (if is_table_part (parts ! k)
      then seg_text (seg_result (restore_loop 3 (env k) (parts ! k) 0 []))
      else parts ! k)"

section \<open>The page-range resolver\<close>

text \<open>
  A JavaScript number is \<^verbatim>\<open>NaN\<close>, an infinity or a finite value. Finite values are kept
  as exact rationals: the rounding of doubles is not modelled.
\<close>

datatype jsnum = NaN | Num rat | PosInf | NegInf

definition is_digit :: "char \<Rightarrow> bool" where
  "is_digit c = (c \<in> set ''0123456789'')"

definition digit_of :: "nat \<Rightarrow> char \<Rightarrow> nat option" where
  "digit_of radix c =
     (case map_of (zip ''0123456789abcdef'' [0..<16]) (to_lower c) of
        None \<Rightarrow> None
      | Some d \<Rightarrow> if d < radix then Some d else None)"

fun digits_value :: "nat \<Rightarrow> nat \<Rightarrow> string \<Rightarrow> nat option" where
  "digits_value radix acc [] = Some acc"
| "digits_value radix acc (c # cs) =
     (case digit_of radix c of
        None \<Rightarrow> None
      | Some d \<Rightarrow> digits_value radix (radix * acc + d) cs)"

text \<open>A non-empty run of digits of the radix, or \<^verbatim>\<open>NaN\<close>.\<close>

definition parse_digits :: "nat \<Rightarrow> string \<Rightarrow> jsnum" where
  "parse_digits radix s =
     (if s = [] then NaN
      else (case digits_value radix 0 s of None \<Rightarrow> NaN | Some v \<Rightarrow> Num (of_nat v)))"

definition decimal_value :: "string \<Rightarrow> nat" where
  "decimal_value ds = (case digits_value 10 0 ds of None \<Rightarrow> 0 | Some v \<Rightarrow> v)"

text \<open>
  \<^verbatim>\<open>StrUnsignedDecimalLiteral\<close>: \<^verbatim>\<open>Infinity\<close>, or digits with an optional fraction, or a
  fraction alone, each with an optional exponent.
\<close>

definition parse_exponent :: "rat \<Rightarrow> string \<Rightarrow> jsnum" where
  "parse_exponent mantissa r =
     (if r = [] then Num mantissa
      else if hd r = CHR ''e'' \<or> hd r = CHR ''E'' then
        (let r1 = tl r;
             negative = (r1 \<noteq> [] \<and> hd r1 = CHR ''-'');
             ds = (if r1 \<noteq> [] \<and> (hd r1 = CHR ''+'' \<or> hd r1 = CHR ''-'') then tl r1 else r1)
         in if ds \<noteq> [] \<and> list_all is_digit ds
            then Num (if negative then mantissa / 10 ^ decimal_value ds
                      else mantissa * 10 ^ decimal_value ds)
            else NaN)
      else NaN)"

definition parse_unsigned :: "string \<Rightarrow> jsnum" where
  "parse_unsigned s =
     (if s = ''Infinity'' then PosInf
      else
        (let ip = takeWhile is_digit s;
             r1 = dropWhile is_digit s;
             dot = (r1 \<noteq> [] \<and> hd r1 = CHR ''.'');
             fp = (if dot then takeWhile is_digit (tl r1) else []);
             r2 = (if dot then dropWhile is_digit (tl r1) else r1)
         in if ip = [] \<and> fp = [] then NaN
            else parse_exponent
                   (of_nat (decimal_value ip) + of_nat (decimal_value fp) / 10 ^ length fp) r2))"

definition negate :: "jsnum \<Rightarrow> jsnum" where
  "negate x = (case x of NaN \<Rightarrow> NaN | Num a \<Rightarrow> Num (- a) | PosInf \<Rightarrow> NegInf | NegInf \<Rightarrow> PosInf)"

text \<open>\<^verbatim>\<open>Number(s)\<close> for a string: white space is trimmed, the empty string is 0, a prefix
  selects the radix, and only a decimal literal may have a sign.\<close>

definition Number :: "string \<Rightarrow> jsnum" where
  "Number s =
     (let t = trim s in
      if t = [] then Num 0
      else if starts_with_ci t ''0x'' then parse_digits 16 (drop 2 t)
      else if starts_with_ci t ''0o'' then parse_digits 8 (drop 2 t)
      else if starts_with_ci t ''0b'' then parse_digits 2 (drop 2 t)
      else if hd t = CHR ''+'' then parse_unsigned (tl t)
      else if hd t = CHR ''-'' then negate (parse_unsigned (tl t))
      else parse_unsigned t)"

text \<open>\<^verbatim>\<open>i <= end\<close> and \<^verbatim>\<open>i++\<close>\<close>

fun js_le :: "jsnum \<Rightarrow> jsnum \<Rightarrow> bool" where
  "js_le NaN y = False"
| "js_le x NaN = False"
| "js_le NegInf y = True"
| "js_le x PosInf = True"
| "js_le PosInf y = False"
| "js_le x NegInf = False"
| "js_le (Num a) (Num b) = (a \<le> b)"

fun js_succ :: "jsnum \<Rightarrow> jsnum" where
  "js_succ (Num a) = Num (a + 1)"
| "js_succ x = x"

text \<open>\<^verbatim>\<open>split\<close> at every character of a class.\<close>

fun split_on :: "(char \<Rightarrow> bool) \<Rightarrow> string \<Rightarrow> string list" where
  "split_on sep [] = [[]]"
| "split_on sep (c # cs) =
     (if sep c then [] # split_on sep cs
      else (case split_on sep cs of [] \<Rightarrow> [[c]] | x # xs \<Rightarrow> (c # x) # xs))"

text \<open>\<^verbatim>\<open>pages.add(i)\<close> on a set kept in insertion order.\<close>

definition set_add :: "rat \<Rightarrow> rat list \<Rightarrow> rat list" where
  "set_add x xs = (if x \<in> set xs then xs else xs @ [x])"

definition add_if_in_range :: "nat \<Rightarrow> jsnum \<Rightarrow> rat list \<Rightarrow> rat list" where
  "add_if_in_range totalPages i pages =
     (case i of
        Num a \<Rightarrow> if 1 \<le> a \<and> a \<le> of_nat totalPages then set_add a pages else pages
      | _ \<Rightarrow> pages)"

text \<open>
  \<^verbatim>\<open>for (let i = start; i <= end; i++) if (i >= 1 && i <= totalPages) pages.add(i)\<close>.
  The loop need not end: \<open>None\<close> is a run that does not return.
\<close>

partial_function (option) range_loop :: "nat \<Rightarrow> jsnum \<Rightarrow> jsnum \<Rightarrow> rat list \<Rightarrow> rat list option"
where
  "range_loop totalPages i stop pages =
     (if js_le i stop
      then range_loop totalPages (js_succ i) stop (add_if_in_range totalPages i pages)
      else Some pages)"

fun parts_loop :: "nat \<Rightarrow> string list \<Rightarrow> rat list \<Rightarrow> rat list option" where
  "parts_loop totalPages [] pages = Some pages"
| "parts_loop totalPages (part # rest) pages =
     (let trimmed = trim part in
      if trimmed = [] then parts_loop totalPages rest pages
      else if CHR ''-'' \<in> set trimmed then
        (case map Number (split_on (\<lambda>c. c = CHR ''-'') trimmed) of
           start # stop # _ \<Rightarrow>
             if start \<noteq> NaN \<and> stop \<noteq> NaN then
               (case range_loop totalPages start stop pages of
                  None \<Rightarrow> None
                | Some pages' \<Rightarrow> parts_loop totalPages rest pages')
             else parts_loop totalPages rest pages
         | _ \<Rightarrow> parts_loop totalPages rest pages)
      else parts_loop totalPages rest (add_if_in_range totalPages (Number trimmed) pages))"

definition all_pages :: "nat \<Rightarrow> rat list" where
  "all_pages totalPages = map of_nat [1..<Suc totalPages]"

definition parsePageRange :: "string \<Rightarrow> nat \<Rightarrow> rat list option" where
  "parsePageRange rangeStr totalPages =
     (if rangeStr = [] \<or> rangeStr = ''all'' then Some (sort (all_pages totalPages))
      else
        (case parts_loop totalPages (split_on (\<lambda>c. c = CHR '','' \<or> c = CHR '';'') rangeStr) [] of
           None \<Rightarrow> None
         | Some pages \<Rightarrow>
             (let sorted = sort pages
              in Some (if sorted \<noteq> [] then sorted else all_pages totalPages))))"

section \<open>Pages and documents\<close>

text \<open>
  \<^verbatim>\<open>PageData\<close> and \<^verbatim>\<open>DocFile\<close>, without the fields that the pipeline does not read
  (the cached page image, the reasoning log, the identity, name, blob and encoding of
  the file). A \<^verbatim>\<open>Partial<PageData>\<close> sets some fields and leaves the others.
\<close>

datatype page_status = Pending | Ocr_success | Restoring | Complete | Page_error

record verification =
  hasTable :: bool
  reason :: "string option"

record PageData =
  rawOCR :: string
  restored :: "string option"
  status :: page_status
  verificationResult :: "verification option"
  errorMessage :: "string option"

record page_update =
  upd_rawOCR :: "string option"
  upd_restored :: "string option option"
  upd_status :: "page_status option"
  upd_verificationResult :: "verification option"
  upd_errorMessage :: "string option"

definition no_update :: page_update where
  "no_update =
     \<lparr>upd_rawOCR = None, upd_restored = None, upd_status = None,
      upd_verificationResult = None, upd_errorMessage = None\<rparr>"

text \<open>\<^verbatim>\<open>{...page, ...pageUpdate}\<close>\<close>

definition apply_update :: "PageData \<Rightarrow> page_update \<Rightarrow> PageData" where
  "apply_update p u =
     \<lparr>rawOCR = (case upd_rawOCR u of None \<Rightarrow> rawOCR p | Some r \<Rightarrow> r),
      restored = (case upd_restored u of None \<Rightarrow> restored p | Some r \<Rightarrow> r),
      status = (case upd_status u of None \<Rightarrow> status p | Some s \<Rightarrow> s),
      verificationResult =
        (case upd_verificationResult u of None \<Rightarrow> verificationResult p | Some v \<Rightarrow> Some v),
      errorMessage = (case upd_errorMessage u of None \<Rightarrow> errorMessage p | Some m \<Rightarrow> Some m)\<rparr>"

definition initial_page :: PageData where
  "initial_page =
     \<lparr>rawOCR = [], restored = None, status = Pending, verificationResult = None,
      errorMessage = None\<rparr>"

datatype ProcessingStatus =
  St_idle | St_queued | St_processing | St_completed | St_error | St_waiting_config

datatype view_mode = Restored | Raw

type_synonym pages = "(nat \<times> PageData) list"

record DocFile =
  doc_content :: string
  doc_status :: ProcessingStatus
  statusMessage :: "string option"
  pageRange :: "string option"
  pageMap :: "nat list option"
  pagesData :: "pages option"
  viewMode :: "view_mode option"

subsection \<open>The literals of the source that are not ASCII\<close>

definition reason_no_table :: string where
  "reason_no_table =
     [CHR 0xE6, CHR 0x97, CHR 0xA0, CHR 0xE8, CHR 0xA1, CHR 0xA8, CHR 0xE6, CHR 0xA0,
      CHR 0xBC, CHR 0x20, CHR 0x28, CHR 0xE6, CHR 0x97, CHR 0xA0, CHR 0xE9, CHR 0x9C,
      CHR 0x80, CHR 0xE9, CHR 0x87, CHR 0x8D, CHR 0xE7, CHR 0xBB, CHR 0x98, CHR 0x29]"

definition reason_restored :: string where
  "reason_restored =
     [CHR 0xE6, CHR 0x96, CHR 0x87, CHR 0xE6, CHR 0xA1, CHR 0xA3, CHR 0xE7, CHR 0xBB,
      CHR 0x93, CHR 0xE6, CHR 0x9E, CHR 0x84, CHR 0xE5, CHR 0xB7, CHR 0xB2, CHR 0xE8,
      CHR 0xBF, CHR 0x98, CHR 0xE5, CHR 0x8E, CHR 0x9F]"

definition reason_kept :: string where
  "reason_kept =
     [CHR 0xE8, CHR 0xA1, CHR 0xA8, CHR 0xE6, CHR 0xA0, CHR 0xBC, CHR 0xE5, CHR 0xB7,
      CHR 0xB2, CHR 0xE4, CHR 0xBF, CHR 0x9D, CHR 0xE7, CHR 0x95, CHR 0x99]"

definition restore_failed_prefix :: string where
  "restore_failed_prefix =
     [CHR 0xE8, CHR 0xBF, CHR 0x98, CHR 0xE5, CHR 0x8E, CHR 0x9F, CHR 0xE5, CHR 0xA4,
      CHR 0xB1, CHR 0xE8, CHR 0xB4, CHR 0xA5, CHR 0x3A, CHR 0x20]"

definition message_starting :: string where
  "message_starting =
     [CHR 0xE5, CHR 0x90, CHR 0xAF, CHR 0xE5, CHR 0x8A, CHR 0xA8, CHR 0xE4, CHR 0xB8,
      CHR 0xAD, CHR 0x2E, CHR 0x2E, CHR 0x2E]"

definition message_done :: string where
  "message_done =
     [CHR 0xE5, CHR 0xAE, CHR 0x8C, CHR 0xE6, CHR 0x88, CHR 0x90]"

definition message_stopped :: string where
  "message_stopped =
     [CHR 0xE5, CHR 0xB7, CHR 0xB2, CHR 0xE5, CHR 0x81, CHR 0x9C, CHR 0xE6, CHR 0xAD,
      CHR 0xA2]"

definition message_failed :: string where
  "message_failed =
     [CHR 0xE5, CHR 0xA4, CHR 0xB1, CHR 0xE8, CHR 0xB4, CHR 0xA5]"

definition file_error_prefix :: string where
  "file_error_prefix =
     [CHR 0xE5, CHR 0xA4, CHR 0x84, CHR 0xE7, CHR 0x90, CHR 0x86, CHR 0xE6, CHR 0x96,
      CHR 0x87, CHR 0xE6, CHR 0xA1, CHR 0xA3, CHR 0xE6, CHR 0x97, CHR 0xB6, CHR 0xE5,
      CHR 0x87, CHR 0xBA, CHR 0xE9, CHR 0x94, CHR 0x99, CHR 0x3A, CHR 0x20]"

definition document_failed :: string where
  "document_failed =
     [CHR 0xE6, CHR 0x96, CHR 0x87, CHR 0xE6, CHR 0xA1, CHR 0xA3, CHR 0xE5, CHR 0xA4,
      CHR 0x84, CHR 0xE7, CHR 0x90, CHR 0x86, CHR 0xE5, CHR 0xA4, CHR 0xB1, CHR 0xE8,
      CHR 0xB4, CHR 0xA5]"

definition page_error_prefix :: string where
  "page_error_prefix =
     [CHR 0x3E, CHR 0x20, CHR 0xE2, CHR 0x9A, CHR 0xA0, CHR 0xEF, CHR 0xB8, CHR 0x8F,
      CHR 0x20, CHR 0x2A, CHR 0x2A, CHR 0x50, CHR 0x61, CHR 0x67, CHR 0x65, CHR 0x20]"

subsection \<open>Reassembling the document text\<close>

definition page_separator :: string where
  "page_separator = [CHR 0x0A, CHR 0x0A] @ ''<--- Page Split --->'' @ [CHR 0x0A, CHR 0x0A]"

fun join_with :: "string \<Rightarrow> string list \<Rightarrow> string" where
  "join_with sep [] = []"
| "join_with sep [x] = x"
| "join_with sep (x # y # zs) = x @ sep @ join_with sep (y # zs)"

text \<open>\<^verbatim>\<open>Object.keys(file.pagesData).length\<close>\<close>

definition numPages :: "pages \<Rightarrow> nat" where
  "numPages pd = length (remdups (map fst pd))"

text \<open>The chunk of page \<open>i\<close>; a missing error message prints as \<^verbatim>\<open>undefined\<close>.\<close>

definition page_chunk :: "view_mode \<Rightarrow> pages \<Rightarrow> nat \<Rightarrow> string" where
  "page_chunk mode pd i =
     (case map_of pd i of
        None \<Rightarrow> []
      | Some pData \<Rightarrow>
          if status pData = Page_error then
            page_error_prefix @ show_nat (i + 1) @ '' Error**: '' @
              (case errorMessage pData of None \<Rightarrow> ''undefined'' | Some m \<Rightarrow> m)
          else if mode = Restored then or_else (restored pData) (rawOCR pData)
          else rawOCR pData)"

definition reconstructContent :: "DocFile \<Rightarrow> string" where
  "reconstructContent file =
     (case pagesData file of
        None \<Rightarrow> doc_content file
      | Some pd \<Rightarrow>
          (let mode = (case viewMode file of None \<Rightarrow> Restored | Some m \<Rightarrow> m)
           in join_with page_separator (map (page_chunk mode pd) [0..<numPages pd])))"

text \<open>
  The handler that \<^verbatim>\<open>processFile\<close> passes as \<^verbatim>\<open>onPageUpdate\<close>. \<^verbatim>\<open>processFile\<close> creates
  the record of every index before the first call; were one missing, the fields that the
  update does not set would be undefined, which reads like the initial record.
\<close>

definition update_page :: "pages \<Rightarrow> nat \<Rightarrow> page_update \<Rightarrow> pages" where
  "update_page pd i u =
     AList.update i
       (apply_update (case map_of pd i of None \<Rightarrow> initial_page | Some p \<Rightarrow> p) u) pd"

definition on_page_update :: "DocFile \<Rightarrow> nat \<times> page_update \<Rightarrow> DocFile" where
  "on_page_update f iu =
     (let newPagesData =
            update_page (case pagesData f of None \<Rightarrow> [] | Some pd \<Rightarrow> pd) (fst iu) (snd iu)
      in f\<lparr>pagesData := Some newPagesData,
            doc_content := reconstructContent (f\<lparr>pagesData := Some newPagesData\<rparr>)\<rparr>)"

definition view_of :: "DocFile \<Rightarrow> view_mode" where
  "view_of f = (case viewMode f of None \<Rightarrow> Restored | Some m \<Rightarrow> m)"

text \<open>
  The text of a page as the specification words it: the restored text if there is one,
  else the raw text, in restored view mode; the raw text in raw view mode.
\<close>

definition page_text_spec :: "view_mode \<Rightarrow> PageData \<Rightarrow> string" where
  "page_text_spec mode p =
     (case mode of
        Raw \<Rightarrow> rawOCR p
      | Restored \<Rightarrow> (case restored p of Some r \<Rightarrow> r | None \<Rightarrow> rawOCR p))"

section \<open>The page loop of processDocument\<close>

text \<open>
  What the iteration for one page meets: the state of the cancellation signal at each
  place where the code reads it, the result of rendering (the image, or the message of
  what is thrown), and the attempts of the two callers.
\<close>

record page_env =
  stop_at_start :: bool
  rendered :: "string + string"
  stop_after_render :: bool
  ocr_attempts :: "nat \<Rightarrow> attempt"
  stop_in_catch :: bool
  stop_at_task_start :: bool
  restoration_attempts :: "nat \<Rightarrow> nat \<Rightarrow> attempt"
  stop_at_task_end :: bool

text \<open>
  The background task of a page with a table tag: the updates it sends, whether it
  called the restoration caller, and the requests that call sent.
\<close>

record task_run =
  task_updates :: "page_update list"
  restoration_calls :: nat
  restoration_requests :: nat

definition restorationTask :: "page_env \<Rightarrow> string \<Rightarrow> task_run" where
  "restorationTask env rawContent =
     (if stop_at_task_start env
      then \<lparr>task_updates = [], restoration_calls = 0, restoration_requests = 0\<rparr>
      else
        (let restoring = no_update\<lparr>upd_status := Some Restoring\<rparr>;
             r = callLayoutRestorationModel 3 (restoration_attempts env) rawContent
         in \<lparr>task_updates =
               (if stop_at_task_end env then [restoring]
                else
                  (case restoration r of
                     Some restorationResult \<Rightarrow>
                       [restoring,
                        no_update\<lparr>upd_restored := Some (Some (content restorationResult)),
                                  upd_status := Some Complete,
                                  upd_verificationResult :=
                                    Some \<lparr>hasTable = hasRealTable restorationResult,
                                          reason = Some (if cleaned restorationResult
                                                         then reason_restored
                                                         else reason_kept)\<rparr>\<rparr>]
                   | None \<Rightarrow>
                       [restoring,
                        no_update\<lparr>upd_status := Some Page_error,
                                  upd_errorMessage :=
                                    Some (restore_failed_prefix @ abort_message)\<rparr>])),
              restoration_calls = 1,
              restoration_requests = requests r\<rparr>))"

text \<open>
  How an iteration ends: the loop goes on, the cancellation error is thrown, or another
  error leaves the loop.
\<close>

datatype ending = Next | Stop | Fatal string

record page_run =
  updates :: "page_update list"
  ending :: ending
  task :: "task_run option"
  ocr_requests :: nat

text \<open>\<^verbatim>\<open>catch (pageError)\<close>, entered with the updates sent so far.\<close>

definition page_catch :: "page_env \<Rightarrow> page_update list \<Rightarrow> nat \<Rightarrow> string \<Rightarrow> page_run" where
  "page_catch env sent n m =
     (if stop_in_catch env \<or> m = abort_message
      then \<lparr>updates = sent, ending = Stop, task = None, ocr_requests = n\<rparr>
      else \<lparr>updates =
              sent @ [no_update\<lparr>upd_status := Some Page_error,
                                upd_errorMessage := Some (or_else (Some m) ''Unknown error'')\<rparr>],
            ending = Next, task = None, ocr_requests = n\<rparr>)"

definition page_iteration :: "page_env \<Rightarrow> page_run" where
  "page_iteration env =
     (if stop_at_start env
      then \<lparr>updates = [], ending = Stop, task = None, ocr_requests = 0\<rparr>
      else
        (let pending = no_update\<lparr>upd_status := Some Pending\<rparr> in
         case rendered env of
           Inl m \<Rightarrow> page_catch env [pending] 0 m
         | Inr imageBase64 \<Rightarrow>
             if stop_after_render env then page_catch env [pending] 0 abort_message
             else
               (let ocr = callOcrModel 5 (ocr_attempts env) in
                case result ocr of
                  Aborted \<Rightarrow> page_catch env [pending] (fetches ocr) abort_message
                | Failed m \<Rightarrow> page_catch env [pending] (fetches ocr) m
                | Threw_undefined \<Rightarrow>
                    \<lparr>updates = [pending], ending = Fatal type_error_message, task = None,
                     ocr_requests = fetches ocr\<rparr>
                | Success rawContent \<Rightarrow>
                    (let ocr_success =
                           no_update\<lparr>upd_rawOCR := Some rawContent, upd_restored := Some None,
                                     upd_status := Some Ocr_success\<rparr>
                     in if \<not> has_table_tag rawContent then
                          \<lparr>updates =
                             [pending, ocr_success,
                              no_update\<lparr>upd_status := Some Complete,
                                        upd_verificationResult :=
                                          Some \<lparr>hasTable = False,
                                                reason = Some reason_no_table\<rparr>\<rparr>],
                           ending = Next, task = None, ocr_requests = fetches ocr\<rparr>
                        else
                          \<lparr>updates = [pending, ocr_success], ending = Next,
                           task = Some (restorationTask env rawContent),
                           ocr_requests = fetches ocr\<rparr>))))"

section \<open>processFile and the tasks in flight\<close>

datatype doc_outcome = Done | Threw string

text \<open>What \<^verbatim>\<open>processFile\<close> writes once \<^verbatim>\<open>processDocument\<close> has returned or thrown.\<close>

definition processFile_finish :: "DocFile \<Rightarrow> doc_outcome \<Rightarrow> DocFile" where
  "processFile_finish f r =
     (case r of
        Done \<Rightarrow> f\<lparr>doc_status := St_completed, statusMessage := Some message_done\<rparr>
      | Threw m \<Rightarrow>
          (let isAbort = (m = abort_message)
           in f\<lparr>doc_content := (if isAbort then doc_content f else file_error_prefix @ m),
                 doc_status := St_error,
                 statusMessage := Some (if isAbort then message_stopped else message_failed)\<rparr>))"

text \<open>What \<^verbatim>\<open>processFile\<close> writes before it calls \<^verbatim>\<open>processDocument\<close>.\<close>

definition processFile_start :: "DocFile \<Rightarrow> nat list \<Rightarrow> DocFile" where
  "processFile_start f pm =
     f\<lparr>doc_status := St_processing, statusMessage := Some message_starting, doc_content := [],
       pageMap := Some pm,
       pagesData := Some (map (\<lambda>idx. (idx, initial_page)) [0..<length pm])\<rparr>"

text \<open>
  The run of one document, event by event. The page loop and the background tasks it
  has launched advance in any order: \<open>Loop_step\<close> is one iteration of the loop (or its
  exit, which reaches \<^verbatim>\<open>await Promise.all(restorationPromises)\<close>), \<open>Task_settles k\<close> is
  the \<open>k\<close>-th launched task running to its end, \<open>Join\<close> is \<^verbatim>\<open>Promise.all\<close> resolving,
  which it does once every promise pushed to the list has settled, and \<open>Finish\<close> is
  \<^verbatim>\<open>processFile\<close> going on after \<^verbatim>\<open>await processDocument\<close>. An event that is not
  enabled leaves the state as it is.
\<close>

datatype phase = In_loop | Joining | Returned | Thrown string | Finished

datatype doc_event = Loop_step | Task_settles nat | Join | Finish

record doc_state =
  next_index :: nat
  launched :: "(nat \<times> task_run) list"
  settled :: "bool list"
  phase :: phase
  doc_file :: DocFile

definition doc_init :: "DocFile \<Rightarrow> nat list \<Rightarrow> doc_state" where
  "doc_init f pm =
     \<lparr>next_index = 0, launched = [], settled = [], phase = In_loop,
      doc_file = processFile_start f pm\<rparr>"

definition doc_step :: "(nat \<Rightarrow> page_env) \<Rightarrow> nat \<Rightarrow> doc_state \<Rightarrow> doc_event \<Rightarrow> doc_state" where
  "doc_step envs n s ev =
     (case ev of
        Loop_step \<Rightarrow>
          if phase s \<noteq> In_loop then s
          else if next_index s < n then
            (let i = next_index s; r = page_iteration (envs i) in
             s\<lparr>next_index := i + 1,
               doc_file := foldl on_page_update (doc_file s) (map (Pair i) (updates r)),
               launched := launched s @ (case task r of None \<Rightarrow> [] | Some t \<Rightarrow> [(i, t)]),
               settled := settled s @ (case task r of None \<Rightarrow> [] | Some t \<Rightarrow> [False]),
               phase := (case ending r of
                           Next \<Rightarrow> In_loop
                         | Stop \<Rightarrow> Thrown abort_message
                         | Fatal m \<Rightarrow> Thrown (or_else (Some m) document_failed))\<rparr>)
          else s\<lparr>phase := Joining\<rparr>
      | Task_settles k \<Rightarrow>
          if k < length (launched s) \<and> k < length (settled s) \<and> \<not> settled s ! k then
            s\<lparr>doc_file := foldl on_page_update (doc_file s)
                        (map (Pair (fst (launched s ! k))) (task_updates (snd (launched s ! k)))),
              settled := (settled s)[k := True]\<rparr>
          else s
      | Join \<Rightarrow>
          if phase s = Joining \<and> list_all (\<lambda>b. b) (settled s) then s\<lparr>phase := Returned\<rparr> else s
      | Finish \<Rightarrow>
          (case phase s of
             Returned \<Rightarrow> s\<lparr>doc_file := processFile_finish (doc_file s) Done, phase := Finished\<rparr>
           | Thrown m \<Rightarrow> s\<lparr>doc_file := processFile_finish (doc_file s) (Threw m), phase := Finished\<rparr>
           | _ \<Rightarrow> s))"

definition doc_run ::
  "(nat \<Rightarrow> page_env) \<Rightarrow> DocFile \<Rightarrow> nat list \<Rightarrow> doc_event list \<Rightarrow> doc_state"
where
  "doc_run envs f pm evs = foldl (doc_step envs (length pm)) (doc_init f pm) evs"

text \<open>How often an iteration, with its task, calls the restoration caller, and the
  requests those calls send.\<close>

definition page_restoration_calls :: "page_run \<Rightarrow> nat" where
  "page_restoration_calls r = (case task r of None \<Rightarrow> 0 | Some t \<Rightarrow> restoration_calls t)"

definition page_restoration_requests :: "page_run \<Rightarrow> nat" where
  "page_restoration_requests r = (case task r of None \<Rightarrow> 0 | Some t \<Rightarrow> restoration_requests t)"

text \<open>All updates of a page, the loop's and then its task's, and the record they leave.\<close>

definition page_updates :: "page_run \<Rightarrow> page_update list" where
  "page_updates r = updates r @ (case task r of None \<Rightarrow> [] | Some t \<Rightarrow> task_updates t)"

definition page_after :: "page_run \<Rightarrow> PageData" where
  "page_after r = foldl apply_update initial_page (page_updates r)"

section \<open>Concrete runs\<close>

text \<open>
  The inputs at which the properties below are evaluated: answers of the network,
  what a page meets, texts and files.
\<close>

definition plain_attempt :: "fetch_result \<Rightarrow> attempt" where
  "plain_attempt r = \<lparr>aborted_before = False, fetched = r, aborted_after = False\<rparr>"

definition answer :: "string \<Rightarrow> attempt" where
  "answer c = plain_attempt (Response 200 (Parsed None (First (Some c) None)))"


definition env_always_429 :: "nat \<Rightarrow> attempt" where
  "env_always_429 i = plain_attempt (Response 429 (Unparseable []))"


definition unclosed_after_table :: string where
  "unclosed_after_table = ''<table>x</table><table>y''"

definition env_rest_down :: "nat \<Rightarrow> nat \<Rightarrow> attempt" where
  "env_rest_down k i = plain_attempt (Response 500 (Unparseable []))"

definition env_rest_text :: "nat \<Rightarrow> nat \<Rightarrow> attempt" where
  "env_rest_text k i = plain_attempt (Response 200 (Parsed None (First (Some ''X'') None)))"

definition marked_text :: string where
  "marked_text = ''<|det|>[[12, 30, 480, 64]]<|/det|># Title''"

definition env_page :: "string \<Rightarrow> page_env" where
  "env_page c =
     \<lparr>stop_at_start = False, rendered = Inr ''image'', stop_after_render = False,
      ocr_attempts = (\<lambda>i. answer c), stop_in_catch = False, stop_at_task_start = False,
      restoration_attempts = env_rest_text, stop_at_task_end = False\<rparr>"


definition env_ocr_down :: page_env where
  "env_ocr_down = (env_page [])\<lparr>ocr_attempts := env_always_429\<rparr>"



definition doc0 :: DocFile where
  "doc0 =
     \<lparr>doc_content = [], doc_status = St_queued, statusMessage = None, pageRange = None,
      pageMap = None, pagesData = None, viewMode = None\<rparr>"

definition doc_ocr_down :: DocFile where
  "doc_ocr_down =
     doc_file (doc_run (\<lambda>i. env_ocr_down) doc0 [1] [Loop_step, Loop_step, Join, Finish])"

definition page_raw_only :: PageData where
  "page_raw_only = initial_page\<lparr>rawOCR := ''raw text'', status := Ocr_success\<rparr>"

definition page_both :: PageData where
  "page_both =
     initial_page\<lparr>rawOCR := ''<table>'', restored := Some ''text'', status := Complete\<rparr>"

section \<open>Verified properties\<close>

subsection \<open>The OCR caller\<close>


lemma ocr_loop_done:
  "\<not> i < retries \<Longrightarrow> ocr_loop retries env i le ws = \<lparr>result = le, fetches = i, waits = ws\<rparr>"
  by (subst ocr_loop.simps) simp

lemma ocr_loop_fail_step:
  "i < retries \<Longrightarrow> attempt_fails env i m \<Longrightarrow>
   ocr_loop retries env i le ws =
     ocr_loop retries env (Suc i) (Failed m) (if i < retries - 1 then ws @ [ocr_wait m i] else ws)"
  by (subst ocr_loop.simps) (simp add: attempt_fails_def)

lemma ocr_loop_all_fail:
  "(\<And>j. i \<le> j \<Longrightarrow> j < retries \<Longrightarrow> attempt_fails env j (msg j)) \<Longrightarrow> i \<le> retries \<Longrightarrow>
   ocr_loop retries env i le ws =
     \<lparr>result = (if i < retries then Failed (msg (retries - 1)) else le), fetches = retries,
      waits = ws @ map (\<lambda>j. ocr_wait (msg j) j) [i..<retries - 1]\<rparr>"
proof (induction "retries - i" arbitrary: i le ws)
  case 0
  then show ?case by (simp add: ocr_loop_done)
next
  case (Suc n)
  then have lt: "i < retries" by simp
  have f: "attempt_fails env i (msg i)" using Suc.prems lt by simp
  have n: "n = retries - Suc i" using Suc.hyps by simp
  have ih: "ocr_loop retries env (Suc i) (Failed (msg i)) ws' =
     \<lparr>result = (if Suc i < retries then Failed (msg (retries - 1)) else Failed (msg i)), fetches = retries,
      waits = ws' @ map (\<lambda>j. ocr_wait (msg j) j) [Suc i..<retries - 1]\<rparr>" for ws'
    using Suc.hyps(1)[OF n, of "Failed (msg i)" ws'] Suc.prems lt by simp
  show ?case
  proof (cases "i < retries - 1")
    case True
    then have s: "Suc i < retries" by simp
    have "ocr_loop retries env i le ws = ocr_loop retries env (Suc i) (Failed (msg i)) (ws @ [ocr_wait (msg i) i])"
      using ocr_loop_fail_step[OF lt f, of le ws] True by simp
    also have "\<dots> = \<lparr>result = Failed (msg (retries - 1)), fetches = retries,
      waits = (ws @ [ocr_wait (msg i) i]) @ map (\<lambda>j. ocr_wait (msg j) j) [Suc i..<retries - 1]\<rparr>"
      using ih[of "ws @ [ocr_wait (msg i) i]"] s by simp
    finally show ?thesis using lt True by (simp add: upt_conv_Cons)
  next
    case False
    then have e: "i = retries - 1" and ns: "\<not> Suc i < retries" using lt by simp_all
    have "ocr_loop retries env i le ws = ocr_loop retries env (Suc i) (Failed (msg i)) ws"
      using ocr_loop_fail_step[OF lt f, of le ws] False by simp
    also have "\<dots> = \<lparr>result = Failed (msg i), fetches = retries,
      waits = ws @ map (\<lambda>j. ocr_wait (msg j) j) [Suc i..<retries - 1]\<rparr>"
      using ih[of ws] ns by simp
    finally show ?thesis using lt e by simp
  qed
qed

lemma ocr_waits_shape:
  "length ws \<le> i \<Longrightarrow> i \<le> retries \<Longrightarrow> length (waits (ocr_loop retries env i le ws)) \<le> max (length ws) (retries - 1)"
proof (induction retries env i le ws rule: ocr_loop.induct)
  case (1 retries env i lastError ws)
  show ?case
    using 1 by (subst ocr_loop.simps) (auto split: sum.splits thrown.splits)
qed






subsection \<open>The table segmenter\<close>

lemma starts_with_ci_append: "starts_with_ci s p \<Longrightarrow> starts_with_ci (s @ t) p"
  by (induction s p rule: starts_with_ci.induct) auto

lemma starts_with_ci_length: "starts_with_ci s p \<Longrightarrow> length p \<le> length s"
  by (induction s p rule: starts_with_ci.induct) auto

lemma starts_with_ci_take:
  "starts_with_ci s p \<Longrightarrow> length p \<le> m \<Longrightarrow> starts_with_ci (take m s) p"
proof (induction s p arbitrary: m rule: starts_with_ci.induct)
  case (3 c cs p ps)
  then obtain m' where "m = Suc m'" by (cases m) auto
  with 3 show ?case by simp
qed auto

lemma index_of_Some: "index_of x s = Some k \<Longrightarrow> k < length s \<and> s ! k = x \<and> (\<forall>i<k. s ! i \<noteq> x)"
proof (induction s arbitrary: k)
  case (Cons c cs)
  show ?case
  proof (cases "c = x")
    case True
    with Cons.prems show ?thesis by simp
  next
    case False
    with Cons.prems obtain k' where k: "index_of x cs = Some k'" "k = Suc k'" by auto
    with Cons.IH[OF k(1)] False show ?thesis by (auto simp: nth_Cons split: nat.splits)
  qed
qed simp

lemma index_of_first: "i < length s \<Longrightarrow> s ! i = x \<Longrightarrow> \<exists>k\<le>i. index_of x s = Some k"
proof (induction s arbitrary: i)
  case (Cons c cs)
  show ?case
  proof (cases "c = x")
    case True
    then show ?thesis by simp
  next
    case False
    with Cons.prems obtain i' where i: "i = Suc i'" by (cases i) auto
    with Cons.prems have "\<exists>k\<le>i'. index_of x cs = Some k" by (intro Cons.IH) auto
    with False i show ?thesis by auto
  qed
qed simp

lemma index_of_append: "index_of x s = Some k \<Longrightarrow> index_of x (s @ t) = Some k"
  by (induction s arbitrary: k) (auto split: if_splits)

lemma find_ci_Some:
  "find_ci s p = Some j \<Longrightarrow> j \<le> length s \<and> starts_with_ci (drop j s) p \<and>
     (\<forall>i<j. \<not> starts_with_ci (drop i s) p)"
proof (induction s arbitrary: j)
  case Nil
  then show ?case by (auto split: if_splits)
next
  case (Cons c cs)
  show ?case
  proof (cases "starts_with_ci (c # cs) p")
    case True
    with Cons.prems show ?thesis by simp
  next
    case False
    with Cons.prems obtain j' where j: "find_ci cs p = Some j'" "j = Suc j'" by auto
    from Cons.IH[OF j(1)] False j(2) show ?thesis
      by (auto simp: less_Suc_eq_0_disj)
  qed
qed

lemma find_ci_first:
  "i \<le> length s \<Longrightarrow> starts_with_ci (drop i s) p \<Longrightarrow> \<exists>j\<le>i. find_ci s p = Some j"
proof (induction s arbitrary: i)
  case Nil
  then show ?case by (cases p) auto
next
  case (Cons c cs)
  show ?case
  proof (cases "starts_with_ci (c # cs) p")
    case True
    then show ?thesis by simp
  next
    case False
    with Cons.prems obtain i' where i: "i = Suc i'" by (cases i) auto
    with Cons.prems have "\<exists>j\<le>i'. find_ci cs p = Some j" by (intro Cons.IH) auto
    with False i show ?thesis by auto
  qed
qed

lemma starts_with_ci_append_short:
  "starts_with_ci (s @ t) p \<Longrightarrow> length p \<le> length s \<Longrightarrow> starts_with_ci s p"
  by (induction s p rule: starts_with_ci.induct) auto

lemma find_ci_append: "find_ci s p = Some j \<Longrightarrow> find_ci (s @ t) p = Some j"
proof (induction s arbitrary: j)
  case Nil
  then have "p = []" "j = 0" by (auto split: if_splits)
  then show ?case by (cases t) auto
next
  case (Cons c cs)
  show ?case
  proof (cases "starts_with_ci (c # cs) p")
    case True
    with Cons.prems starts_with_ci_append[OF True, of t] show ?thesis by simp
  next
    case False
    with Cons.prems obtain j' where j: "find_ci cs p = Some j'" "j = Suc j'" by auto
    from find_ci_Some[OF j(1)] have "starts_with_ci (drop j' cs) p" by simp
    then have "length p \<le> length cs" using starts_with_ci_length by fastforce
    then have "\<not> starts_with_ci ((c # cs) @ t) p"
      using False starts_with_ci_append_short[of "c # cs" t p] by auto
    with j Cons.IH[OF j(1)] show ?thesis by simp
  qed
qed

lemma index_of_take: "index_of x s = Some k \<Longrightarrow> k < m \<Longrightarrow> index_of x (take m s) = Some k"
proof (induction s arbitrary: k m)
  case (Cons c cs)
  obtain m' where m: "m = Suc m'" using Cons.prems by (cases m) auto
  show ?case
  proof (cases "c = x")
    case True
    with m Cons.prems show ?thesis by simp
  next
    case False
    with Cons.prems obtain k' where k: "index_of x cs = Some k'" "k = Suc k'" by auto
    with Cons.IH[OF k(1), of m'] Cons.prems m False show ?thesis by simp
  qed
qed simp

lemma find_ci_take:
  assumes "find_ci s p = Some j" and "j + length p \<le> m"
  shows "find_ci (take m s) p = Some j"
proof -
  from find_ci_Some[OF assms(1)] have j: "j \<le> length s" "starts_with_ci (drop j s) p" by simp_all
  have "drop j (take m s) = take (m - j) (drop j s)" by (simp add: drop_take)
  moreover have "starts_with_ci (take (m - j) (drop j s)) p"
    using j(2) assms(2) by (intro starts_with_ci_take) auto
  ultimately have "starts_with_ci (drop j (take m s)) p" by simp
  moreover have "j \<le> length (take m s)" using j(1) assms(2) by simp
  ultimately obtain j' where j': "j' \<le> j" "find_ci (take m s) p = Some j'"
    using find_ci_first by blast
  from find_ci_append[OF j'(2), of "drop m s"] assms(1) have "j' = j" by simp
  with j'(2) show ?thesis by simp
qed

lemma match_table_at_Some:
  "match_table_at s = Some n \<Longrightarrow>
   \<exists>k j. starts_with_ci s ''<table'' \<and> index_of (CHR ''>'') (drop 6 s) = Some k \<and>
         find_ci (drop (7 + k) s) ''</table>'' = Some j \<and> n = 15 + k + j"
  by (auto simp: match_table_at_def split: if_splits option.splits)

lemma match_table_at_bounds:
  assumes "match_table_at s = Some n"
  shows "0 < n \<and> n \<le> length s"
proof -
  from match_table_at_Some[OF assms] obtain k j where
    f: "find_ci (drop (7 + k) s) ''</table>'' = Some j" and n: "n = 15 + k + j" by blast
  from find_ci_Some[OF f] have "starts_with_ci (drop j (drop (7 + k) s)) ''</table>''" by simp
  from starts_with_ci_length[OF this] have "8 \<le> length s - (7 + k) - j" by simp
  with n show ?thesis by simp
qed

lemma match_table_at_append:
  assumes "match_table_at s = Some n"
  shows "match_table_at (s @ t) = Some n"
proof -
  from match_table_at_Some[OF assms] obtain k j where
    a: "starts_with_ci s ''<table''" and
    b: "index_of (CHR ''>'') (drop 6 s) = Some k" and
    c: "find_ci (drop (7 + k) s) ''</table>'' = Some j" and n: "n = 15 + k + j" by blast
  from match_table_at_bounds[OF assms] n have len: "15 + k + j \<le> length s" by simp
  have a': "starts_with_ci (s @ t) ''<table''" by (rule starts_with_ci_append[OF a])
  have "drop 6 (s @ t) = drop 6 s @ t" using len by simp
  with index_of_append[OF b, of t] have b': "index_of (CHR ''>'') (drop 6 (s @ t)) = Some k" by simp
  have "drop (7 + k) (s @ t) = drop (7 + k) s @ t" using len by simp
  with find_ci_append[OF c, of t]
  have c': "find_ci (drop (7 + k) (s @ t)) ''</table>'' = Some j" by simp
  show ?thesis using a' b' c' n by (simp add: match_table_at_def)
qed

lemma match_table_at_take:
  assumes "match_table_at s = Some n"
  shows "match_table_at (take n s) = Some n"
proof -
  from match_table_at_Some[OF assms] obtain k j where
    a: "starts_with_ci s ''<table''" and
    b: "index_of (CHR ''>'') (drop 6 s) = Some k" and
    c: "find_ci (drop (7 + k) s) ''</table>'' = Some j" and n: "n = 15 + k + j" by blast
  have a': "starts_with_ci (take n s) ''<table''"
    using a n by (intro starts_with_ci_take) auto
  have "drop 6 (take n s) = take (n - 6) (drop 6 s)" by (simp add: drop_take)
  with index_of_take[OF b, of "n - 6"] n
  have b': "index_of (CHR ''>'') (drop 6 (take n s)) = Some k" by simp
  have "drop (7 + k) (take n s) = take (n - (7 + k)) (drop (7 + k) s)" by (simp add: drop_take)
  with find_ci_take[OF c, of "n - (7 + k)"] n
  have c': "find_ci (drop (7 + k) (take n s)) ''</table>'' = Some j" by simp
  show ?thesis using a' b' c' n by (simp add: match_table_at_def)
qed

lemma has_block_iff: "has_block s \<longleftrightarrow> (\<exists>i<length s. match_table_at (drop i s) \<noteq> None)"
proof (induction s)
  case (Cons c cs)
  show ?case
  proof
    assume "has_block (c # cs)"
    then consider "match_table_at (c # cs) \<noteq> None" | "has_block cs" by auto
    then show "\<exists>i<length (c # cs). match_table_at (drop i (c # cs)) \<noteq> None"
    proof cases
      case 1
      then have "match_table_at (drop 0 (c # cs)) \<noteq> None" by simp
      then show ?thesis by blast
    next
      case 2
      with Cons.IH obtain i where "i < length cs" "match_table_at (drop i cs) \<noteq> None" by blast
      then have "Suc i < length (c # cs)" "match_table_at (drop (Suc i) (c # cs)) \<noteq> None" by simp_all
      then show ?thesis by blast
    qed
  next
    assume "\<exists>i<length (c # cs). match_table_at (drop i (c # cs)) \<noteq> None"
    then obtain i where i: "i < length (c # cs)" "match_table_at (drop i (c # cs)) \<noteq> None" by blast
    show "has_block (c # cs)"
    proof (cases i)
      case 0
      with i show ?thesis by simp
    next
      case (Suc i')
      with i Cons.IH show ?thesis by auto
    qed
  qed
qed simp

lemma table_prefix_matches:
  assumes m: "match_table_at s = Some n" and p: "starts_with_ci acc ''<table''"
  shows "match_table_at (acc @ s) \<noteq> None"
proof -
  from match_table_at_Some[OF m] obtain k j where
    b: "index_of (CHR ''>'') (drop 6 s) = Some k" and
    c: "find_ci (drop (7 + k) s) ''</table>'' = Some j" and n: "n = 15 + k + j" by blast
  from match_table_at_bounds[OF m] n have len: "15 + k + j \<le> length s" by simp
  from starts_with_ci_length[OF p] have la: "6 \<le> length acc" by simp
  let ?u = "acc @ s"
  have a': "starts_with_ci ?u ''<table''" by (rule starts_with_ci_append[OF p])
  from index_of_Some[OF b] have gt: "drop 6 s ! k = CHR ''>''" by simp
  have "drop 6 ?u ! (length acc + k) = ?u ! (6 + (length acc + k))"
    using len by (intro nth_drop) simp
  also have "\<dots> = s ! (6 + k)" by (simp add: nth_append)
  also have "\<dots> = drop 6 s ! k" using len by simp
  finally have "drop 6 ?u ! (length acc + k) = CHR ''>''" using gt by simp
  moreover have "length acc + k < length (drop 6 ?u)" using len by simp
  ultimately obtain k' where k': "k' \<le> length acc + k" "index_of (CHR ''>'') (drop 6 ?u) = Some k'"
    using index_of_first by blast
  from find_ci_Some[OF c] have sw: "starts_with_ci (drop j (drop (7 + k) s)) ''</table>''" by simp
  let ?i = "length acc + k + j - k'"
  have e: "?i + (7 + k') = length acc + (7 + k + j)" using k'(1) by simp
  have "drop ?i (drop (7 + k') ?u) = drop (?i + (7 + k')) ?u" by (simp only: drop_drop)
  also have "\<dots> = drop (length acc + (7 + k + j)) ?u" by (simp only: e)
  also have "\<dots> = drop (7 + k + j) s" by (simp only: drop_append) simp
  also have "\<dots> = drop j (drop (7 + k) s)" by (simp add: add.commute)
  finally have "starts_with_ci (drop ?i (drop (7 + k') ?u)) ''</table>''" using sw by simp
  moreover have "?i \<le> length (drop (7 + k') ?u)" using len k'(1) by simp
  ultimately obtain j' where "find_ci (drop (7 + k') ?u) ''</table>'' = Some j'"
    using find_ci_first by blast
  with a' k'(2) show ?thesis by (simp add: match_table_at_def)
qed

lemma split_loop_nil: "split_loop acc [] = [acc]"
  by (subst split_loop.simps) simp

lemma split_loop_skip:
  "match_table_at (c # cs) = None \<Longrightarrow> split_loop acc (c # cs) = split_loop (acc @ [c]) cs"
  by (subst split_loop.simps) simp

lemma split_loop_match:
  "match_table_at (c # cs) = Some n \<Longrightarrow>
   split_loop acc (c # cs) = acc # take n (c # cs) # split_loop [] (drop n (c # cs))"
  using match_table_at_bounds[of "c # cs" n] by (subst split_loop.simps) simp

lemma concat_split_loop: "concat (split_loop acc s) = acc @ s"
proof (induction acc s rule: split_loop.induct)
  case (1 acc s)
  show ?case
  proof (cases s)
    case Nil
    then show ?thesis by (simp add: split_loop_nil)
  next
    case (Cons c cs)
    show ?thesis
    proof (cases "match_table_at s")
      case None
      with Cons 1(1) show ?thesis by (simp add: split_loop_skip)
    next
      case (Some n)
      from match_table_at_bounds[OF Some] have "n \<noteq> 0" by simp
      with Cons Some 1(3)[of n] show ?thesis by (simp add: split_loop_match)
    qed
  qed
qed

lemma split_loop_well:
  "(\<forall>i<length acc. match_table_at (drop i acc @ s) = None) \<Longrightarrow> well_split (split_loop acc s)"
proof (induction acc s rule: split_loop.induct)
  case (1 acc s)
  have nb: "\<not> has_block acc"
  proof
    assume "has_block acc"
    then obtain i n where i: "i < length acc" "match_table_at (drop i acc) = Some n"
      by (auto simp: has_block_iff)
    from match_table_at_append[OF i(2), of s] 1(4) i(1) show False by simp
  qed
  show ?case
  proof (cases s)
    case Nil
    with nb show ?thesis by (simp add: split_loop_nil)
  next
    case (Cons c cs)
    show ?thesis
    proof (cases "match_table_at s")
      case None
      have "\<forall>i<length (acc @ [hd s]). match_table_at (drop i (acc @ [hd s]) @ tl s) = None"
      proof (intro allI impI)
        fix i assume "i < length (acc @ [hd s])"
        then consider "i < length acc" | "i = length acc" by fastforce
        then show "match_table_at (drop i (acc @ [hd s]) @ tl s) = None"
        proof cases
          case 1
          with \<open>\<forall>i<length acc. match_table_at (drop i acc @ s) = None\<close> Cons show ?thesis by simp
        next
          case 2
          with None Cons show ?thesis by simp
        qed
      qed
      with 1(1) Cons None show ?thesis by (simp add: split_loop_skip)
    next
      case (Some n)
      from match_table_at_bounds[OF Some] have n: "n \<noteq> 0" "n \<le> length s" by simp_all
      have np: "\<not> is_table_part acc"
      proof
        assume p: "is_table_part acc"
        then have "acc \<noteq> []" by (auto simp: is_table_part_def)
        with 1(4) have "match_table_at (drop 0 acc @ s) = None" by blast
        with table_prefix_matches[OF Some, of acc] p show False by (simp add: is_table_part_def)
      qed
      have blk: "is_block (take n s)"
        using match_table_at_take[OF Some] n by (simp add: is_block_def min_def)
      have tp: "is_table_part (take n s)"
        using match_table_at_Some[OF match_table_at_take[OF Some]] by (auto simp: is_table_part_def)
      have "well_split (split_loop [] (drop n s))"
        using 1(3)[of n] Cons Some n by simp
      with nb np blk tp Cons Some show ?thesis by (simp add: split_loop_match)
    qed
  qed
qed

lemma split_loop_no_block: "\<not> has_block s \<Longrightarrow> split_loop acc s = [acc @ s]"
  by (induction s arbitrary: acc) (simp_all add: split_loop_nil split_loop_skip)

lemma well_split_odd: "well_split ps \<Longrightarrow> odd (length ps)"
  by (induction ps rule: well_split.induct) auto

lemma well_split_nth:
  "well_split ps \<Longrightarrow> i < length ps \<Longrightarrow>
   (odd i \<longrightarrow> is_block (ps ! i) \<and> is_table_part (ps ! i)) \<and>
   (even i \<longrightarrow> \<not> has_block (ps ! i)) \<and>
   (even i \<and> Suc i < length ps \<longrightarrow> \<not> is_table_part (ps ! i))"
proof (induction ps arbitrary: i rule: well_split.induct)
  case (3 p b rest)
  show ?case
  proof (cases i)
    case 0
    with 3 show ?thesis by simp
  next
    case (Suc j)
    show ?thesis
    proof (cases j)
      case 0
      with Suc 3 show ?thesis by simp
    next
      case (Suc l)
      with \<open>i = Suc j\<close> 3(1)[of l] 3(2,3) show ?thesis by simp
    qed
  qed
qed auto

lemma split_tables_well: "well_split (split_tables s)"
  unfolding split_tables_def by (rule split_loop_well) simp

text \<open>
  C3. The parts of the split, joined in order, are the input; their number is odd, plain
  text and tables in turn: every part of odd index is exactly one
  \<^verbatim>\<open><table ...>...</table>\<close> block, matched case-insensitively, tags included, and no part
  of even index holds a complete block; a text without a complete block is returned as
  the single part; and the example of the specification gives its five segments.
\<close>

theorem split_tables_segments:
  "concat (split_tables s) = s \<and>
   odd (length (split_tables s)) \<and>
   (\<forall>i<length (split_tables s).
      (odd i \<longrightarrow> is_block (split_tables s ! i)) \<and>
      (even i \<longrightarrow> \<not> has_block (split_tables s ! i))) \<and>
   (\<not> has_block s \<longrightarrow> split_tables s = [s]) \<and>
   split_tables ''A<table>X</table>B<table>Y</table>C'' =
     [''A'', ''<table>X</table>'', ''B'', ''<table>Y</table>'', ''C'']"
proof -
  have a: "concat (split_tables s) = s" by (simp add: split_tables_def concat_split_loop)
  have b: "odd (length (split_tables s))" by (rule well_split_odd[OF split_tables_well])
  have c: "\<forall>i<length (split_tables s).
      (odd i \<longrightarrow> is_block (split_tables s ! i)) \<and>
      (even i \<longrightarrow> \<not> has_block (split_tables s ! i))"
    using well_split_nth[OF split_tables_well[of s]] by blast
  have d: "\<not> has_block s \<longrightarrow> split_tables s = [s]"
    by (simp add: split_tables_def split_loop_no_block)
  have e: "split_tables ''A<table>X</table>B<table>Y</table>C'' =
     [''A'', ''<table>X</table>'', ''B'', ''<table>Y</table>'', ''C'']"
    by code_simp
  from a b c d e show ?thesis by blast
qed

theorem split_tables_segments_witness:
  "\<not> has_block ''no table here'' \<and> split_tables ''no table here'' = [''no table here''] \<and>
   split_tables ''x<TABLE border=1>Y</Table>'' = [''x'', ''<TABLE border=1>Y</Table>'', ''''] \<and>
   is_block ''<TABLE border=1>Y</Table>'' \<and> \<not> has_block ''x''"
proof -
  have n: "\<not> has_block ''no table here''"
    by code_simp
  have s: "split_tables ''x<TABLE border=1>Y</Table>'' = [''x'', ''<TABLE border=1>Y</Table>'', '''']"
    by code_simp
  from split_tables_segments[of "''no table here''"] n
  have a: "split_tables ''no table here'' = [''no table here'']" by blast
  from split_tables_segments[of "''x<TABLE border=1>Y</Table>''"] s
  have "is_block (split_tables ''x<TABLE border=1>Y</Table>'' ! 1) \<and>
        \<not> has_block (split_tables ''x<TABLE border=1>Y</Table>'' ! 0)"
    by (metis One_nat_def even_zero length_Cons less_Suc_eq list.size(3) odd_one zero_less_Suc)
  with s n a show ?thesis by simp
qed

subsection \<open>The restoration caller\<close>

lemma restore_loop_fetches:
  "i \<le> retries \<Longrightarrow> seg_fetches (restore_loop retries env part i ws) \<le> retries"
proof (induction retries env part i ws rule: restore_loop.induct)
  case (1 retries env tableHtml i ws)
  show ?case
    using 1 by (subst restore_loop.simps) (auto split: sum.splits thrown.splits)
qed

lemma process_part_fetches: "seg_fetches (process_part retries env part) \<le> retries"
  by (simp add: process_part_def restore_loop_fetches)

lemma restore_loop_fail_step:
  "i < retries \<Longrightarrow> restore_fails env i m \<Longrightarrow>
   restore_loop retries env part i ws =
     (if i = retries - 1
      then \<lparr>seg_result = Seg_fallback part, seg_fetches = i + 1, seg_waits = ws\<rparr>
      else restore_loop retries env part (i + 1) (ws @ [restore_wait m i]))"
  by (subst restore_loop.simps) (simp add: restore_fails_def)

lemma restore_loop_all_fail:
  assumes "restore_fails env 0 m0" "restore_fails env 1 m1" "restore_fails env 2 m2"
  shows "restore_loop 3 env part 0 [] =
    \<lparr>seg_result = Seg_fallback part, seg_fetches = 3,
     seg_waits = [restore_wait m0 0, restore_wait m1 1]\<rparr>"
proof -
  have a: "restore_loop 3 env part 0 [] = restore_loop 3 env part (Suc 0) [restore_wait m0 0]"
    using restore_loop_fail_step[of 0 3 env m0 part "[]"] assms(1) by simp
  have b: "restore_loop 3 env part (Suc 0) [restore_wait m0 0] =
           restore_loop 3 env part (Suc (Suc 0)) [restore_wait m0 0, restore_wait m1 1]"
    using restore_loop_fail_step[of "Suc 0" 3 env m1 part "[restore_wait m0 0]"] assms(2) by simp
  have c: "restore_loop 3 env part (Suc (Suc 0)) [restore_wait m0 0, restore_wait m1 1] =
     \<lparr>seg_result = Seg_fallback part, seg_fetches = 3,
      seg_waits = [restore_wait m0 0, restore_wait m1 1]\<rparr>"
    using restore_loop_fail_step[of "Suc (Suc 0)" 3 env m2 part
        "[restore_wait m0 0, restore_wait m1 1]"] assms(3)
    by (simp add: numeral_2_eq_2 numeral_3_eq_3)
  from a b c show ?thesis by simp
qed

lemma part_traces_length: "length (part_traces retries env parts) = length parts"
  by (simp add: part_traces_def)

lemma part_traces_nth:
  "k < length parts \<Longrightarrow> part_traces retries env parts ! k = process_part retries (env k) (parts ! k)"
  by (simp add: part_traces_def)

lemma part_traces_text:
  "map (seg_text \<circ> seg_result) (part_traces 3 env parts) =
   map (resolved_part env parts) [0..<length parts]"
proof (rule nth_equalityI)
  show "length (map (seg_text \<circ> seg_result) (part_traces 3 env parts)) =
        length (map (resolved_part env parts) [0..<length parts])"
    by (simp add: part_traces_length)
next
  fix k assume "k < length (map (seg_text \<circ> seg_result) (part_traces 3 env parts))"
  then have k: "k < length parts" by (simp add: part_traces_length)
  then show "map (seg_text \<circ> seg_result) (part_traces 3 env parts) ! k =
        map (resolved_part env parts) [0..<length parts] ! k"
    by (simp add: part_traces_length part_traces_nth resolved_part_def process_part_def)
qed

lemma restoration_content:
  assumes "1 < length (split_tables raw)"
    and "\<forall>k<length (split_tables raw).
           seg_result (process_part 3 (env k) (split_tables raw ! k)) \<noteq> Seg_aborted"
  shows "\<exists>r. restoration (callLayoutRestorationModel 3 env raw) = Some r \<and>
             content r = concat (map (resolved_part env (split_tables raw))
                                   [0..<length (split_tables raw)])"
proof -
  let ?ps = "split_tables raw"
  have "\<not> list_ex (\<lambda>t. seg_result t = Seg_aborted) (part_traces 3 env ?ps)"
    using assms(2)
    by (auto simp: list_ex_iff in_set_conv_nth part_traces_length part_traces_nth)
  with assms(1) show ?thesis
    by (simp add: callLayoutRestorationModel_def Let_def part_traces_text)
qed

lemma restoration_all_fail:
  assumes "\<forall>k<length (split_tables raw). is_table_part (split_tables raw ! k) \<longrightarrow>
             (\<exists>m0 m1 m2. restore_fails (env k) 0 m0 \<and> restore_fails (env k) 1 m1 \<and>
                          restore_fails (env k) 2 m2)"
  shows "restoration (callLayoutRestorationModel 3 env raw) =
           Some \<lparr>content = raw, hasRealTable = False, cleaned = False\<rparr>"
proof (cases "length (split_tables raw) \<le> 1")
  case True
  then show ?thesis by (simp add: callLayoutRestorationModel_def)
next
  case False
  let ?ps = "split_tables raw"
  have each: "seg_result (process_part 3 (env k) (?ps ! k)) =
     (if is_table_part (?ps ! k) then Seg_fallback (?ps ! k) else Seg_plain (?ps ! k))"
    if "k < length ?ps" for k
  proof (cases "is_table_part (?ps ! k)")
    case True
    with assms that obtain m0 m1 m2 where
      "restore_fails (env k) 0 m0" "restore_fails (env k) 1 m1" "restore_fails (env k) 2 m2"
      by blast
    from restore_loop_all_fail[OF this, of "?ps ! k"] True show ?thesis
      by (simp add: process_part_def)
  next
    case False
    then show ?thesis by (simp add: process_part_def)
  qed
  have res: "seg_result t \<noteq> Seg_aborted \<and> \<not> kept_as_table (seg_result t) \<and>
             \<not> converted_to_text (seg_result t)"
    if "t \<in> set (part_traces 3 env ?ps)" for t
  proof -
    from that obtain k where k: "k < length ?ps" "t = process_part 3 (env k) (?ps ! k)"
      by (auto simp: in_set_conv_nth part_traces_length part_traces_nth)
    show ?thesis using each[OF k(1)] k(2) by simp
  qed
  have texts: "map (seg_text \<circ> seg_result) (part_traces 3 env ?ps) = ?ps"
  proof (rule nth_equalityI)
    show "length (map (seg_text \<circ> seg_result) (part_traces 3 env ?ps)) = length ?ps"
      by (simp add: part_traces_length)
  next
    fix k assume "k < length (map (seg_text \<circ> seg_result) (part_traces 3 env ?ps))"
    then have k: "k < length ?ps" by (simp add: part_traces_length)
    show "map (seg_text \<circ> seg_result) (part_traces 3 env ?ps) ! k = ?ps ! k"
      using each[OF k] k by (simp add: part_traces_length part_traces_nth)
  qed
  have "concat ?ps = raw" by (simp add: split_tables_def concat_split_loop)
  with False res texts show ?thesis
    by (simp add: callLayoutRestorationModel_def Let_def list_ex_iff)
qed

text \<open>
  Against C4 as stated: a table that is opened right after a closed one and never closed
  is left in the last part of the split, which is plain text, not a table segment. It
  begins with \<^verbatim>\<open><table\<close>, so it is sent to the model too, and the answer replaces it.
\<close>

theorem restoration_replaces_unclosed_table:
  "split_tables unclosed_after_table = ['''', ''<table>x</table>'', ''<table>y''] \<and>
   \<not> has_block ''<table>y'' \<and>
   callLayoutRestorationModel 3 env_rest_text unclosed_after_table =
     \<lparr>restoration = Some \<lparr>content = ''XX'', hasRealTable = False, cleaned = True\<rparr>,
      requests = 2\<rparr>"
  by code_simp

text \<open>
  C4, as amended. A part that is sent to the model costs at most 3 requests; when its
  three attempts fail it resolves to the original text of the part, after back-offs
  following the first and the second failure. The parts sent are those that begin with
  \<^verbatim>\<open><table\<close>: every table segment, no plain segment before a table, and the last plain
  segment when it begins so. When the split has more than one part and no part is
  cancelled the call returns the parts in their order, joined, each part that was sent
  replaced by what it resolved to and every other part as it was; a split of one part
  returns the text with no request; and when the attempts of every part sent fail, the
  content returned is the raw text, nothing dropped.
\<close>

theorem restoration_caller_policy:
  "seg_fetches (process_part 3 e part) \<le> 3 \<and>
   (is_table_part part \<and> restore_fails e 0 m0 \<and> restore_fails e 1 m1 \<and> restore_fails e 2 m2 \<longrightarrow>
      process_part 3 e part =
        \<lparr>seg_result = Seg_fallback part, seg_fetches = 3,
         seg_waits = [restore_wait m0 0, restore_wait m1 1]\<rparr>) \<and>
   (\<forall>k<length (split_tables raw).
      (odd k \<longrightarrow> is_table_part (split_tables raw ! k)) \<and>
      (even k \<and> Suc k < length (split_tables raw) \<longrightarrow>
         \<not> is_table_part (split_tables raw ! k) \<and>
         resolved_part env (split_tables raw) k = split_tables raw ! k)) \<and>
   (1 < length (split_tables raw) \<and>
    (\<forall>k<length (split_tables raw).
       seg_result (process_part 3 (env k) (split_tables raw ! k)) \<noteq> Seg_aborted) \<longrightarrow>
      (\<exists>r. restoration (callLayoutRestorationModel 3 env raw) = Some r \<and>
           content r = concat (map (resolved_part env (split_tables raw))
                                 [0..<length (split_tables raw)]))) \<and>
   (length (split_tables raw) \<le> 1 \<longrightarrow>
      callLayoutRestorationModel 3 env raw =
        \<lparr>restoration = Some \<lparr>content = raw, hasRealTable = False, cleaned = False\<rparr>,
         requests = 0\<rparr>) \<and>
   ((\<forall>k<length (split_tables raw). is_table_part (split_tables raw ! k) \<longrightarrow>
       (\<exists>m0 m1 m2. restore_fails (env k) 0 m0 \<and> restore_fails (env k) 1 m1 \<and>
                    restore_fails (env k) 2 m2)) \<longrightarrow>
      restoration (callLayoutRestorationModel 3 env raw) =
        Some \<lparr>content = raw, hasRealTable = False, cleaned = False\<rparr>)"
proof -
  have a: "seg_fetches (process_part 3 e part) \<le> 3" by (rule process_part_fetches)
  have b: "is_table_part part \<and> restore_fails e 0 m0 \<and> restore_fails e 1 m1 \<and>
      restore_fails e 2 m2 \<longrightarrow>
      process_part 3 e part =
        \<lparr>seg_result = Seg_fallback part, seg_fetches = 3,
         seg_waits = [restore_wait m0 0, restore_wait m1 1]\<rparr>"
    using restore_loop_all_fail[of e m0 m1 m2 part] by (simp add: process_part_def)
  have k: "\<forall>k<length (split_tables raw).
      (odd k \<longrightarrow> is_table_part (split_tables raw ! k)) \<and>
      (even k \<and> Suc k < length (split_tables raw) \<longrightarrow>
         \<not> is_table_part (split_tables raw ! k) \<and>
         resolved_part env (split_tables raw) k = split_tables raw ! k)"
    using well_split_nth[OF split_tables_well[of raw]] by (simp add: resolved_part_def)
  have c: "1 < length (split_tables raw) \<and>
    (\<forall>k<length (split_tables raw).
       seg_result (process_part 3 (env k) (split_tables raw ! k)) \<noteq> Seg_aborted) \<longrightarrow>
      (\<exists>r. restoration (callLayoutRestorationModel 3 env raw) = Some r \<and>
           content r = concat (map (resolved_part env (split_tables raw))
                                 [0..<length (split_tables raw)]))"
    using restoration_content[of raw env] by blast
  have d: "length (split_tables raw) \<le> 1 \<longrightarrow>
      callLayoutRestorationModel 3 env raw =
        \<lparr>restoration = Some \<lparr>content = raw, hasRealTable = False, cleaned = False\<rparr>,
         requests = 0\<rparr>"
    by (simp add: callLayoutRestorationModel_def)
  have e: "(\<forall>k<length (split_tables raw). is_table_part (split_tables raw ! k) \<longrightarrow>
       (\<exists>m0 m1 m2. restore_fails (env k) 0 m0 \<and> restore_fails (env k) 1 m1 \<and>
                    restore_fails (env k) 2 m2)) \<longrightarrow>
      restoration (callLayoutRestorationModel 3 env raw) =
        Some \<lparr>content = raw, hasRealTable = False, cleaned = False\<rparr>"
    using restoration_all_fail[of raw env] by blast
  from a b k c d e show ?thesis by blast
qed

theorem restoration_caller_policy_witness:
  "is_table_part ''<table>X</table>'' \<and>
   restore_fails (env_rest_down 1) 0 ''API Error: 500'' \<and>
   restore_fails (env_rest_down 1) 1 ''API Error: 500'' \<and>
   restore_fails (env_rest_down 1) 2 ''API Error: 500'' \<and>
   process_part 3 (env_rest_down 1) ''<table>X</table>'' =
     \<lparr>seg_result = Seg_fallback ''<table>X</table>'', seg_fetches = 3, seg_waits = [1000, 1000]\<rparr> \<and>
   split_tables ''A<table>X</table>B'' = [''A'', ''<table>X</table>'', ''B''] \<and>
   \<not> is_table_part ''A'' \<and>
   resolved_part env_rest_down [''A'', ''<table>X</table>'', ''B''] 0 = ''A'' \<and>
   restoration (callLayoutRestorationModel 3 env_rest_down ''A<table>X</table>B'') =
     Some \<lparr>content = ''A<table>X</table>B'', hasRealTable = False, cleaned = False\<rparr> \<and>
   split_tables ''plain'' = [''plain''] \<and>
   callLayoutRestorationModel 3 env_rest_down ''plain'' =
     \<lparr>restoration = Some \<lparr>content = ''plain'', hasRealTable = False, cleaned = False\<rparr>,
      requests = 0\<rparr> \<and>
   callLayoutRestorationModel 3 env_rest_text ''A<table>X</table>B'' =
     \<lparr>restoration = Some \<lparr>content = ''AXB'', hasRealTable = False, cleaned = True\<rparr>,
      requests = 1\<rparr>"
proof -
  have x: "callLayoutRestorationModel 3 env_rest_text ''A<table>X</table>B'' =
     \<lparr>restoration = Some \<lparr>content = ''AXB'', hasRealTable = False, cleaned = True\<rparr>,
      requests = 1\<rparr>"
    by code_simp
  have t: "is_table_part ''<table>X</table>''" by code_simp
  have f: "restore_fails (env_rest_down k) i ''API Error: 500''" for k i
    by (simp add: restore_fails_def env_rest_down_def plain_attempt_def restore_try_def
        response_ok_def show_nat.simps digit_char_def)
  have w: "restore_wait ''API Error: 500'' i = 1000" for i by (simp add: restore_wait_def)
  have p: "split_tables ''A<table>X</table>B'' = [''A'', ''<table>X</table>'', ''B'']"
    by code_simp
  have q: "split_tables ''plain'' = [''plain'']" by code_simp
  note pol = restoration_caller_policy[of "env_rest_down 1" "''<table>X</table>''"
      "''API Error: 500''" "''API Error: 500''" "''API Error: 500''" _ env_rest_down]
  have one: "process_part 3 (env_rest_down 1) ''<table>X</table>'' =
     \<lparr>seg_result = Seg_fallback ''<table>X</table>'', seg_fetches = 3, seg_waits = [1000, 1000]\<rparr>"
    using pol[of "''plain''"] t f w by simp
  from pol[of "''A<table>X</table>B''"]
  have "\<forall>k<length (split_tables ''A<table>X</table>B'').
      (odd k \<longrightarrow> is_table_part (split_tables ''A<table>X</table>B'' ! k)) \<and>
      (even k \<and> Suc k < length (split_tables ''A<table>X</table>B'') \<longrightarrow>
         \<not> is_table_part (split_tables ''A<table>X</table>B'' ! k) \<and>
         resolved_part env_rest_down (split_tables ''A<table>X</table>B'') k =
           split_tables ''A<table>X</table>B'' ! k)"
    by blast
  then have "0 < length (split_tables ''A<table>X</table>B'') \<longrightarrow>
      (even (0::nat) \<and> Suc 0 < length (split_tables ''A<table>X</table>B'') \<longrightarrow>
         \<not> is_table_part (split_tables ''A<table>X</table>B'' ! 0) \<and>
         resolved_part env_rest_down (split_tables ''A<table>X</table>B'') 0 =
           split_tables ''A<table>X</table>B'' ! 0)"
    by blast
  with p have first: "\<not> is_table_part ''A''"
    "resolved_part env_rest_down [''A'', ''<table>X</table>'', ''B''] 0 = ''A''"
    by simp_all
  have all: "restoration (callLayoutRestorationModel 3 env_rest_down ''A<table>X</table>B'') =
     Some \<lparr>content = ''A<table>X</table>B'', hasRealTable = False, cleaned = False\<rparr>"
    using pol[of "''A<table>X</table>B''"] f by blast
  have none: "callLayoutRestorationModel 3 env_rest_down ''plain'' =
     \<lparr>restoration = Some \<lparr>content = ''plain'', hasRealTable = False, cleaned = False\<rparr>,
      requests = 0\<rparr>"
    using pol[of "''plain''"] q by simp
  from t f one p first all q none x show ?thesis by blast
qed

subsection \<open>Pages\<close>

lemma page_iteration_success:
  assumes "\<not> stop_at_start env" "rendered env = Inr img" "\<not> stop_after_render env"
    and "result (callOcrModel 5 (ocr_attempts env)) = Success raw"
  shows "page_iteration env =
     (if \<not> has_table_tag raw then
        \<lparr>updates =
           [no_update\<lparr>upd_status := Some Pending\<rparr>,
            no_update\<lparr>upd_rawOCR := Some raw, upd_restored := Some None,
                      upd_status := Some Ocr_success\<rparr>,
            no_update\<lparr>upd_status := Some Complete,
                      upd_verificationResult :=
                        Some \<lparr>hasTable = False, reason = Some reason_no_table\<rparr>\<rparr>],
         ending = Next, task = None,
         ocr_requests = fetches (callOcrModel 5 (ocr_attempts env))\<rparr>
      else
        \<lparr>updates =
           [no_update\<lparr>upd_status := Some Pending\<rparr>,
            no_update\<lparr>upd_rawOCR := Some raw, upd_restored := Some None,
                      upd_status := Some Ocr_success\<rparr>],
         ending = Next, task = Some (restorationTask env raw),
         ocr_requests = fetches (callOcrModel 5 (ocr_attempts env))\<rparr>)"
  using assms by (simp add: page_iteration_def Let_def)

text \<open>
  C5. When the OCR of a page succeeds with a text that has no table tag, the iteration
  sends three updates, the last of which sets \<open>status = Complete\<close> and
  \<open>hasTable = False\<close>; it launches no task, so the restoration caller is not called and
  sends no request; and the page record ends complete, with the raw text and no
  restored text.
\<close>

theorem page_without_table_completes:
  assumes "\<not> stop_at_start env" and "rendered env = Inr img" and "\<not> stop_after_render env"
    and "result (callOcrModel 5 (ocr_attempts env)) = Success raw"
    and "\<not> has_table_tag raw"
  shows "updates (page_iteration env) =
           [no_update\<lparr>upd_status := Some Pending\<rparr>,
            no_update\<lparr>upd_rawOCR := Some raw, upd_restored := Some None,
                      upd_status := Some Ocr_success\<rparr>,
            no_update\<lparr>upd_status := Some Complete,
                      upd_verificationResult :=
                        Some \<lparr>hasTable = False, reason = Some reason_no_table\<rparr>\<rparr>] \<and>
         ending (page_iteration env) = Next \<and>
         task (page_iteration env) = None \<and>
         page_restoration_calls (page_iteration env) = 0 \<and>
         page_restoration_requests (page_iteration env) = 0 \<and>
         page_after (page_iteration env) =
           \<lparr>rawOCR = raw, restored = None, status = Complete,
            verificationResult = Some \<lparr>hasTable = False, reason = Some reason_no_table\<rparr>,
            errorMessage = None\<rparr>"
  using page_iteration_success[OF assms(1-4)] assms(5)
  by (simp add: page_restoration_calls_def page_restoration_requests_def page_after_def
      page_updates_def apply_update_def initial_page_def no_update_def)

theorem page_without_table_completes_witness:
  "\<not> stop_at_start (env_page ''# Title'') \<and>
   rendered (env_page ''# Title'') = Inr ''image'' \<and>
   \<not> stop_after_render (env_page ''# Title'') \<and>
   result (callOcrModel 5 (ocr_attempts (env_page ''# Title''))) = Success ''# Title'' \<and>
   \<not> has_table_tag ''# Title'' \<and>
   task (page_iteration (env_page ''# Title'')) = None \<and>
   page_restoration_calls (page_iteration (env_page ''# Title'')) = 0 \<and>
   status (page_after (page_iteration (env_page ''# Title''))) = Complete \<and>
   verificationResult (page_after (page_iteration (env_page ''# Title''))) =
     Some \<lparr>hasTable = False, reason = Some reason_no_table\<rparr>"
proof -
  have a: "\<not> stop_at_start (env_page ''# Title'')"
    and b: "rendered (env_page ''# Title'') = Inr ''image''"
    and c: "\<not> stop_after_render (env_page ''# Title'')"
    by (simp_all add: env_page_def)
  have d: "result (callOcrModel 5 (ocr_attempts (env_page ''# Title''))) = Success ''# Title''"
    by code_simp
  have e: "\<not> has_table_tag ''# Title''" by code_simp
  from a b c d e page_without_table_completes[OF a b c d e] show ?thesis by simp
qed



subsection \<open>The run of a document\<close>








subsection \<open>Cancellation\<close>






subsection \<open>Reassembling the document text\<close>

lemma numPages_zip: "length ps = n \<Longrightarrow> numPages (zip [0..<n] ps) = n"
  by (simp add: numPages_def)

lemma map_of_zip_upt: "i < length ps \<Longrightarrow> map_of (zip [0..<length ps] ps) i = Some (ps ! i)"
  using map_of_zip_nth[of "[0..<length ps]" ps i] by simp

lemma page_chunk_plain:
  assumes "map_of pd i = Some p" and "status p \<noteq> Page_error"
  shows "page_chunk Raw pd i = rawOCR p"
    and "page_chunk Restored pd i =
           (case restored p of None \<Rightarrow> rawOCR p | Some r \<Rightarrow> if r = [] then rawOCR p else r)"
  using assms by (simp_all add: page_chunk_def or_else_def)

lemma page_chunk_spec:
  assumes "map_of pd i = Some p" and "status p \<noteq> Page_error" and "restored p \<noteq> Some []"
  shows "page_chunk mode pd i = page_text_spec mode p"
  using assms
  by (cases mode) (auto simp: page_chunk_def or_else_def page_text_spec_def split: option.splits)

lemma reconstruct_spec:
  assumes "\<forall>p\<in>set ps. status p \<noteq> Page_error \<and> restored p \<noteq> Some []"
  shows "reconstructContent (f\<lparr>pagesData := Some (zip [0..<length ps] ps)\<rparr>) =
         join_with page_separator (map (page_text_spec (view_of f)) ps)"
proof -
  have "map (page_chunk (view_of f) (zip [0..<length ps] ps)) [0..<length ps] =
        map (page_text_spec (view_of f)) ps"
  proof (rule nth_equalityI)
    show "length (map (page_chunk (view_of f) (zip [0..<length ps] ps)) [0..<length ps]) =
          length (map (page_text_spec (view_of f)) ps)"
      by simp
  next
    fix i assume "i < length (map (page_chunk (view_of f) (zip [0..<length ps] ps)) [0..<length ps])"
    then have i: "i < length ps" by simp
    then have "ps ! i \<in> set ps" by simp
    with assms have "status (ps ! i) \<noteq> Page_error" "restored (ps ! i) \<noteq> Some []" by blast+
    from page_chunk_spec[OF map_of_zip_upt[OF i] this, of "view_of f"] i
    show "map (page_chunk (view_of f) (zip [0..<length ps] ps)) [0..<length ps] ! i =
          map (page_text_spec (view_of f)) ps ! i"
      by simp
  qed
  then show ?thesis
    by (simp add: reconstructContent_def numPages_zip view_of_def)
qed

lemma callOcrModel_always_429:
  "callOcrModel 5 env_always_429 =
     \<lparr>result = Failed ''API Error: 429 Rate Limit Exceeded'', fetches = 5,
      waits = [5000, 10000, 15000, 20000]\<rparr>"
proof -
  have h: "attempt_fails env_always_429 j ''API Error: 429 Rate Limit Exceeded''" for j
    by (simp add: attempt_fails_def env_always_429_def plain_attempt_def ocr_try_def response_ok_def)
  have u: "[0..<4] = [0, 1, 2, 3::nat]" by (simp add: upt_rec)
  show ?thesis
    unfolding callOcrModel_def
    using ocr_loop_all_fail[of 0 5 env_always_429 "\<lambda>_. ''API Error: 429 Rate Limit Exceeded''"
        Threw_undefined "[]"] h u
    by (simp add: ocr_wait_def)
qed

lemma page_iteration_ocr_down:
  "page_iteration env_ocr_down =
     \<lparr>updates =
        [no_update\<lparr>upd_status := Some Pending\<rparr>,
         no_update\<lparr>upd_status := Some Page_error,
                   upd_errorMessage := Some ''API Error: 429 Rate Limit Exceeded''\<rparr>],
      ending = Next, task = None, ocr_requests = 5\<rparr>"
  by (simp add: page_iteration_def env_ocr_down_def env_page_def page_catch_def
      callOcrModel_always_429 Let_def abort_message_def or_else_def)

lemma doc_ocr_down_pages:
  "doc_ocr_down =
     \<lparr>doc_content = page_error_prefix @ ''1 Error**: API Error: 429 Rate Limit Exceeded'',
      doc_status = St_completed, statusMessage = Some message_done, pageRange = None,
      pageMap = Some [1],
      pagesData =
        Some [(0, \<lparr>rawOCR = [], restored = None, status = Page_error,
                   verificationResult = None,
                   errorMessage = Some ''API Error: 429 Rate Limit Exceeded''\<rparr>)],
      viewMode = None\<rparr>"
  by (simp add: doc_ocr_down_def doc_run_def doc_init_def doc_step_def page_iteration_ocr_down
      processFile_start_def processFile_finish_def doc0_def on_page_update_def update_page_def
      apply_update_def initial_page_def no_update_def reconstructContent_def numPages_def
      page_chunk_def join_with.simps show_nat.simps digit_char_def Let_def)

text \<open>
  Against C6 as stated: after an OCR that fails five times the page has no raw and no
  restored text, and the reconstructed text is not empty: it is the error banner of the
  page.
\<close>

theorem failed_page_shows_banner:
  "pagesData doc_ocr_down =
     Some [(0, \<lparr>rawOCR = [], restored = None, status = Page_error, verificationResult = None,
                errorMessage = Some ''API Error: 429 Rate Limit Exceeded''\<rparr>)] \<and>
   viewMode doc_ocr_down = None \<and>
   reconstructContent doc_ocr_down =
     page_error_prefix @ ''1 Error**: API Error: 429 Rate Limit Exceeded'' \<and>
   doc_content doc_ocr_down = reconstructContent doc_ocr_down \<and>
   reconstructContent doc_ocr_down \<noteq> []"
  by (simp add: doc_ocr_down_pages reconstructContent_def numPages_def page_chunk_def
      show_nat.simps digit_char_def page_error_prefix_def)

text \<open>
  C6, as amended. A file without page records keeps its content; otherwise the
  reconstructed text is the chunks of the indices below the number of records, joined by
  the page separator. The chunk of a page that is not in error status is its raw text in
  raw view mode and, in restored view mode, its restored text when that is present and
  not empty, and its raw text otherwise; so for \<open>restored = None\<close> and a raw text that is
  not empty it is the raw text. The chunk of a page in error status is the error
  banner, and the chunk of an index without a record is empty. When no page is in error
  status and no restored text is empty, the reconstructed text is the text of the
  specification.
\<close>

theorem reconstructContent_pages:
  "(pagesData f = None \<longrightarrow> reconstructContent f = doc_content f) \<and>
   (pagesData f = Some pd \<longrightarrow>
      reconstructContent f =
        join_with page_separator (map (page_chunk (view_of f) pd) [0..<numPages pd])) \<and>
   (map_of pd i = Some p \<and> status p \<noteq> Page_error \<longrightarrow>
      page_chunk Raw pd i = rawOCR p \<and>
      page_chunk Restored pd i =
        (case restored p of None \<Rightarrow> rawOCR p | Some r \<Rightarrow> if r = [] then rawOCR p else r)) \<and>
   (map_of pd i = Some p \<and> status p \<noteq> Page_error \<and> restored p = None \<and> rawOCR p \<noteq> [] \<longrightarrow>
      page_chunk Restored pd i = rawOCR p) \<and>
   (map_of pd i = Some p \<and> status p = Page_error \<longrightarrow>
      page_chunk mode pd i =
        page_error_prefix @ show_nat (i + 1) @ '' Error**: '' @
          (case errorMessage p of None \<Rightarrow> ''undefined'' | Some m \<Rightarrow> m)) \<and>
   (map_of pd i = None \<longrightarrow> page_chunk mode pd i = []) \<and>
   ((\<forall>p\<in>set ps. status p \<noteq> Page_error \<and> restored p \<noteq> Some []) \<longrightarrow>
      reconstructContent (f\<lparr>pagesData := Some (zip [0..<length ps] ps)\<rparr>) =
        join_with page_separator (map (page_text_spec (view_of f)) ps))"
proof -
  have a: "pagesData f = None \<longrightarrow> reconstructContent f = doc_content f"
    by (simp add: reconstructContent_def)
  have b: "pagesData f = Some pd \<longrightarrow>
      reconstructContent f =
        join_with page_separator (map (page_chunk (view_of f) pd) [0..<numPages pd])"
    by (simp add: reconstructContent_def view_of_def)
  have c: "map_of pd i = Some p \<and> status p \<noteq> Page_error \<longrightarrow>
      page_chunk Raw pd i = rawOCR p \<and>
      page_chunk Restored pd i =
        (case restored p of None \<Rightarrow> rawOCR p | Some r \<Rightarrow> if r = [] then rawOCR p else r)"
    using page_chunk_plain[of pd i p] by blast
  have d: "map_of pd i = Some p \<and> status p \<noteq> Page_error \<and> restored p = None \<and>
      rawOCR p \<noteq> [] \<longrightarrow> page_chunk Restored pd i = rawOCR p"
    using page_chunk_plain(2)[of pd i p] by simp
  have e: "map_of pd i = Some p \<and> status p = Page_error \<longrightarrow>
      page_chunk mode pd i =
        page_error_prefix @ show_nat (i + 1) @ '' Error**: '' @
          (case errorMessage p of None \<Rightarrow> ''undefined'' | Some m \<Rightarrow> m)"
    by (simp add: page_chunk_def)
  have g: "map_of pd i = None \<longrightarrow> page_chunk mode pd i = []"
    by (simp add: page_chunk_def)
  have h: "(\<forall>p\<in>set ps. status p \<noteq> Page_error \<and> restored p \<noteq> Some []) \<longrightarrow>
      reconstructContent (f\<lparr>pagesData := Some (zip [0..<length ps] ps)\<rparr>) =
        join_with page_separator (map (page_text_spec (view_of f)) ps)"
    using reconstruct_spec[of ps f] by blast
  from a b c d e g h show ?thesis by blast
qed

theorem reconstructContent_pages_witness:
  "map_of [(0, page_raw_only), (1, page_both)] 0 = Some page_raw_only \<and>
   status page_raw_only \<noteq> Page_error \<and> restored page_raw_only = None \<and>
   rawOCR page_raw_only \<noteq> [] \<and>
   page_chunk Restored [(0, page_raw_only), (1, page_both)] 0 = ''raw text'' \<and>
   status page_both \<noteq> Page_error \<and> restored page_both \<noteq> Some [] \<and>
   reconstructContent (doc0\<lparr>pagesData := Some (zip [0..<length [page_raw_only, page_both]]
                                                  [page_raw_only, page_both])\<rparr>) =
     ''raw text'' @ page_separator @ ''text'' \<and>
   reconstructContent (doc0\<lparr>viewMode := Some Raw,
       pagesData := Some (zip [0..<length [page_raw_only, page_both]]
                             [page_raw_only, page_both])\<rparr>) =
     ''raw text'' @ page_separator @ ''<table>''"
proof -
  have m: "map_of [(0, page_raw_only), (1, page_both)] 0 = Some page_raw_only" by simp
  have s1: "status page_raw_only \<noteq> Page_error" "restored page_raw_only = None"
    "rawOCR page_raw_only \<noteq> []" "rawOCR page_raw_only = ''raw text''"
    by (simp_all add: page_raw_only_def initial_page_def)
  have s2: "status page_both \<noteq> Page_error" "restored page_both \<noteq> Some []"
    "restored page_both = Some ''text''" "rawOCR page_both = ''<table>''"
    by (simp_all add: page_both_def initial_page_def)
  have hyp: "\<forall>p\<in>set [page_raw_only, page_both]. status p \<noteq> Page_error \<and> restored p \<noteq> Some []"
    using s1 s2 by simp
  note t1 = reconstructContent_pages[of doc0 "[(0, page_raw_only), (1, page_both)]" 0
      page_raw_only Restored "[page_raw_only, page_both]"]
  note t2 = reconstructContent_pages[of "doc0\<lparr>viewMode := Some Raw\<rparr>"
      "[(0, page_raw_only), (1, page_both)]" 0 page_raw_only Restored
      "[page_raw_only, page_both]"]
  from t1 m s1 have c: "page_chunk Restored [(0, page_raw_only), (1, page_both)] 0 = ''raw text''"
    by simp
  from t1 hyp s1 s2 have r1:
    "reconstructContent (doc0\<lparr>pagesData := Some (zip [0..<length [page_raw_only, page_both]]
                                                  [page_raw_only, page_both])\<rparr>) =
     ''raw text'' @ page_separator @ ''text''"
    by (simp add: page_text_spec_def view_of_def doc0_def)
  from t2 hyp s1 s2 have r2:
    "reconstructContent (doc0\<lparr>viewMode := Some Raw,
       pagesData := Some (zip [0..<length [page_raw_only, page_both]]
                             [page_raw_only, page_both])\<rparr>) =
     ''raw text'' @ page_separator @ ''<table>''"
    by (simp add: page_text_spec_def view_of_def doc0_def)
  from m s1(1-3) c s2(1,2) r1 r2 show ?thesis by blast
qed

subsection \<open>The text that the OCR caller returns\<close>

text \<open>
  C9 fails on the code: the caller strips the code fences and returns the text with its
  coordinate marker, which the cleaner \<open>cleanOcrNoise\<close>, never called, would have removed.
\<close>

theorem callOcrModel_keeps_markers:
  "result (callOcrModel 5 (\<lambda>i. answer marked_text)) = Success marked_text \<and>
   cleanOcrNoise marked_text = ''# Title'' \<and>
   result (callOcrModel 5 (\<lambda>i. answer (fence @ ''markdown'' @ [CHR 0x0A] @ marked_text @
                                          [CHR 0x0A] @ fence))) = Success marked_text"
  by code_simp

subsection \<open>The page-range resolver\<close>

lemma range_loop_step:
  "js_le i stop \<Longrightarrow>
   range_loop n i stop pages = range_loop n (js_succ i) stop (add_if_in_range n i pages)"
  by (subst range_loop.simps) simp

lemma range_loop_stop: "\<not> js_le i stop \<Longrightarrow> range_loop n i stop pages = Some pages"
  by (subst range_loop.simps) simp

lemma parsePageRange_fraction_eval: "parsePageRange ''1.5'' 3 = Some [3 / 2]"
proof -
  have t: "split_on (\<lambda>c. c = CHR '','' \<or> c = CHR '';'') ''1.5'' = [''1.5'']" by code_simp
  have tr: "trim ''1.5'' = ''1.5''" by code_simp
  have n: "Number ''1.5'' = Num (3 / 2)" by code_simp
  show ?thesis
    by (simp add: parsePageRange_def t tr n add_if_in_range_def set_add_def)
qed

lemma parsePageRange_example: "parsePageRange ''1,3-5,8'' 10 = Some [1, 3, 4, 5, 8]"
proof -
  have t: "split_on (\<lambda>c. c = CHR '','' \<or> c = CHR '';'') ''1,3-5,8'' = [''1'', ''3-5'', ''8'']"
    by code_simp
  have tr: "trim ''1'' = ''1''" "trim ''3-5'' = ''3-5''" "trim ''8'' = ''8''" by code_simp+
  have sp: "split_on (\<lambda>c. c = CHR ''-'') ''3-5'' = [''3'', ''5'']" by code_simp
  have n: "Number ''1'' = Num 1" "Number ''3'' = Num 3" "Number ''5'' = Num 5"
    "Number ''8'' = Num 8"
    by code_simp+
  have r: "range_loop 10 (Num 3) (Num 5) [1] = Some [1, 3, 4, 5]"
    by (simp add: range_loop_step range_loop_stop add_if_in_range_def set_add_def)
  show ?thesis
    by (simp add: parsePageRange_def t tr sp n r add_if_in_range_def set_add_def)
qed

lemma parsePageRange_out_of_range: "parsePageRange ''99'' 3 = Some [1, 2, 3]"
proof -
  have t: "split_on (\<lambda>c. c = CHR '','' \<or> c = CHR '';'') ''99'' = [''99'']" by code_simp
  have tr: "trim ''99'' = ''99''" by code_simp
  have n: "Number ''99'' = Num 99" by code_simp
  have u: "map rat_of_nat [Suc 0..<4] = [1, 2, 3]" by (simp add: upt_rec)
  show ?thesis
    by (simp add: parsePageRange_def t tr n add_if_in_range_def all_pages_def u)
qed

lemma parsePageRange_empty: "parsePageRange '''' 3 = Some [1, 2, 3]"
proof -
  have u: "map rat_of_nat [Suc 0..<4] = [1, 2, 3]" by (simp add: upt_rec)
  show ?thesis by (simp add: parsePageRange_def all_pages_def u)
qed

lemma range_loop_returns:
  assumes "range_loop n i stop pages = Some r"
  shows "i = NaN \<or> stop \<noteq> PosInf"
proof (rule range_loop.raw_induct[where P = "\<lambda>n i stop pages r. i = NaN \<or> stop \<noteq> PosInf",
      OF _ assms])
  fix f m j e ps q
  assume ih: "\<And>a b c d y. f a b c d = Some y \<Longrightarrow> b = NaN \<or> c \<noteq> PosInf"
    and eq: "(if js_le j e then f m (js_succ j) e (add_if_in_range m j ps) else Some ps) = Some q"
  show "j = NaN \<or> e \<noteq> PosInf"
  proof (cases "js_le j e")
    case True
    with eq have "f m (js_succ j) e (add_if_in_range m j ps) = Some q" by simp
    from ih[OF this] show ?thesis by (cases j) auto
  next
    case False
    then show ?thesis by (cases j; cases e) auto
  qed
qed

lemma parsePageRange_hangs: "parsePageRange ''1-Infinity'' 3 = None"
proof -
  have t: "split_on (\<lambda>c. c = CHR '','' \<or> c = CHR '';'') ''1-Infinity'' = [''1-Infinity'']"
    by code_simp
  have tr: "trim ''1-Infinity'' = ''1-Infinity''" by code_simp
  have sp: "split_on (\<lambda>c. c = CHR ''-'') ''1-Infinity'' = [''1'', ''Infinity'']" by code_simp
  have n: "Number ''1'' = Num 1" "Number ''Infinity'' = PosInf" by code_simp+
  have r: "range_loop 3 (Num 1) PosInf [] = None"
    using range_loop_returns[of 3 "Num 1" PosInf "[]"] by (cases "range_loop 3 (Num 1) PosInf []") auto
  show ?thesis
    by (simp add: parsePageRange_def t tr sp n r)
qed

lemma add_if_in_range_inv:
  assumes "distinct pages" and "\<forall>p\<in>set pages. 1 \<le> p \<and> p \<le> of_nat n"
  shows "distinct (add_if_in_range n i pages) \<and>
         (\<forall>p\<in>set (add_if_in_range n i pages). 1 \<le> p \<and> p \<le> of_nat n)"
  using assms by (cases i) (auto simp: add_if_in_range_def set_add_def)

lemma range_loop_inv:
  assumes "range_loop n i stop pages = Some r"
  shows "distinct pages \<and> (\<forall>p\<in>set pages. 1 \<le> p \<and> p \<le> of_nat n) \<longrightarrow>
         distinct r \<and> (\<forall>p\<in>set r. 1 \<le> p \<and> p \<le> of_nat n)"
proof (rule range_loop.raw_induct[where P = "\<lambda>n i stop pages r.
      distinct pages \<and> (\<forall>p\<in>set pages. 1 \<le> p \<and> p \<le> of_nat n) \<longrightarrow>
      distinct r \<and> (\<forall>p\<in>set r. 1 \<le> p \<and> p \<le> of_nat n)", OF _ assms])
  fix f m j e ps q
  assume ih: "\<And>a b c d y. f a b c d = Some y \<Longrightarrow>
      distinct d \<and> (\<forall>p\<in>set d. 1 \<le> p \<and> p \<le> of_nat a) \<longrightarrow>
      distinct y \<and> (\<forall>p\<in>set y. 1 \<le> p \<and> p \<le> of_nat a)"
    and eq: "(if js_le j e then f m (js_succ j) e (add_if_in_range m j ps) else Some ps) = Some q"
  show "distinct ps \<and> (\<forall>p\<in>set ps. 1 \<le> p \<and> p \<le> of_nat m) \<longrightarrow>
        distinct q \<and> (\<forall>p\<in>set q. 1 \<le> p \<and> p \<le> of_nat m)"
  proof (cases "js_le j e")
    case True
    with eq have "f m (js_succ j) e (add_if_in_range m j ps) = Some q" by simp
    from ih[OF this] add_if_in_range_inv[of ps m j] show ?thesis by blast
  next
    case False
    with eq show ?thesis by simp
  qed
qed

lemma parts_loop_empty:
  "trim part = [] \<Longrightarrow> parts_loop n (part # rest) pages = parts_loop n rest pages"
  by simp

lemma parts_loop_page:
  "trim part \<noteq> [] \<Longrightarrow> CHR ''-'' \<notin> set (trim part) \<Longrightarrow>
   parts_loop n (part # rest) pages =
     parts_loop n rest (add_if_in_range n (Number (trim part)) pages)"
  by simp

lemma parts_loop_range:
  "trim part \<noteq> [] \<Longrightarrow> CHR ''-'' \<in> set (trim part) \<Longrightarrow>
   map Number (split_on (\<lambda>c. c = CHR ''-'') (trim part)) = start # stop # t \<Longrightarrow>
   parts_loop n (part # rest) pages =
     (if start \<noteq> NaN \<and> stop \<noteq> NaN then
        (case range_loop n start stop pages of
           None \<Rightarrow> None
         | Some pages' \<Rightarrow> parts_loop n rest pages')
      else parts_loop n rest pages)"
  by simp

lemma parts_loop_short:
  "trim part \<noteq> [] \<Longrightarrow> CHR ''-'' \<in> set (trim part) \<Longrightarrow>
   map Number (split_on (\<lambda>c. c = CHR ''-'') (trim part)) = [] \<or>
   map Number (split_on (\<lambda>c. c = CHR ''-'') (trim part)) = [x] \<Longrightarrow>
   parts_loop n (part # rest) pages = parts_loop n rest pages"
  by (erule disjE) simp_all

lemma parts_loop_inv:
  "parts_loop n parts pages = Some r \<Longrightarrow> distinct pages \<Longrightarrow>
   \<forall>p\<in>set pages. 1 \<le> p \<and> p \<le> of_nat n \<Longrightarrow>
   distinct r \<and> (\<forall>p\<in>set r. 1 \<le> p \<and> p \<le> of_nat n)"
proof (induction parts arbitrary: pages)
  case Nil
  then show ?case by simp
next
  case (Cons part rest)
  let ?t = "trim part"
  have skip: ?case if "parts_loop n rest pages = Some r"
    using Cons.IH[OF that Cons.prems(2,3)] .
  show ?case
  proof (cases "?t = []")
    case True
    from Cons.prems(1) have "parts_loop n rest pages = Some r"
      by (simp only: parts_loop_empty[OF True])
    then show ?thesis by (rule skip)
  next
    case ne: False
    show ?thesis
    proof (cases "CHR ''-'' \<in> set ?t")
      case False
      from Cons.prems(1)
      have "parts_loop n rest (add_if_in_range n (Number ?t) pages) = Some r"
        by (simp only: parts_loop_page[OF ne False])
      from Cons.IH[OF this] add_if_in_range_inv[OF Cons.prems(2,3), of "Number ?t"]
      show ?thesis by blast
    next
      case True
      let ?ns = "map Number (split_on (\<lambda>c. c = CHR ''-'') ?t)"
      show ?thesis
      proof (cases ?ns)
        case Nil
        from Cons.prems(1) have "parts_loop n rest pages = Some r"
          by (simp only: parts_loop_short[OF ne True disjI1[OF Nil]])
        then show ?thesis by (rule skip)
      next
        case outer: (Cons a t1)
        show ?thesis
        proof (cases t1)
          case Nil
          with outer have "?ns = [a]" by simp
          from Cons.prems(1) have "parts_loop n rest pages = Some r"
            by (simp only: parts_loop_short[OF ne True disjI2[OF \<open>?ns = [a]\<close>]])
          then show ?thesis by (rule skip)
        next
          case (Cons b t2)
          with outer have ns: "?ns = a # b # t2" by simp
          note eq = parts_loop_range[OF ne True ns, of n rest pages]
          show ?thesis
          proof (cases "a \<noteq> NaN \<and> b \<noteq> NaN")
            case False
            with eq \<open>parts_loop n (part # rest) pages = Some r\<close>
            have "parts_loop n rest pages = Some r" by auto
            then show ?thesis by (rule skip)
          next
            case ok: True
            show ?thesis
            proof (cases "range_loop n a b pages")
              case None
              with eq ok \<open>parts_loop n (part # rest) pages = Some r\<close>
              show ?thesis by simp
            next
              case (Some m)
              with eq ok \<open>parts_loop n (part # rest) pages = Some r\<close>
              have rest: "parts_loop n rest m = Some r" by simp
              from range_loop_inv[OF Some] \<open>distinct pages\<close>
                \<open>\<forall>p\<in>set pages. 1 \<le> p \<and> p \<le> of_nat n\<close>
              have "distinct m \<and> (\<forall>p\<in>set m. 1 \<le> p \<and> p \<le> of_nat n)" by blast
              with \<open>\<And>pages. parts_loop n rest pages = Some r \<Longrightarrow> distinct pages \<Longrightarrow>
                 \<forall>p\<in>set pages. 1 \<le> p \<and> p \<le> of_nat n \<Longrightarrow>
                 distinct r \<and> (\<forall>p\<in>set r. 1 \<le> p \<and> p \<le> of_nat n)\<close>[OF rest]
              show ?thesis by blast
            qed
          qed
        qed
      qed
    qed
  qed
qed

lemma all_pages_props:
  "sorted (all_pages n) \<and> distinct (all_pages n) \<and>
   (\<forall>p\<in>set (all_pages n). 1 \<le> p \<and> p \<le> of_nat n) \<and> (0 < n \<longrightarrow> all_pages n \<noteq> [])"
proof -
  have "sorted (map rat_of_nat [1..<Suc n])"
    by (simp add: sorted_map del: upt_Suc)
  moreover have "distinct (map rat_of_nat [1..<Suc n])"
    by (simp add: distinct_map inj_on_def)
  ultimately show ?thesis by (auto simp: all_pages_def)
qed

text \<open>
  What holds of every result of the resolver: it is sorted, without duplicates, within
  \<open>[1, n]\<close> and, for \<open>n \<ge> 1\<close>, not empty.
\<close>

lemma parsePageRange_result:
  assumes "parsePageRange s n = Some ps"
  shows "sorted ps \<and> distinct ps \<and> (\<forall>p\<in>set ps. 1 \<le> p \<and> p \<le> of_nat n) \<and>
         (0 < n \<longrightarrow> ps \<noteq> [])"
proof (cases "s = [] \<or> s = ''all''")
  case True
  with assms have "ps = sort (all_pages n)" by (auto simp: parsePageRange_def)
  with all_pages_props[of n] show ?thesis by (auto simp: sorted_sort_id)
next
  case False
  with assms obtain pages where
    p: "parts_loop n (split_on (\<lambda>c. c = CHR '','' \<or> c = CHR '';'') s) [] = Some pages" and
    r: "ps = (if sort pages \<noteq> [] then sort pages else all_pages n)"
    by (auto simp: parsePageRange_def Let_def split: option.splits)
  from parts_loop_inv[OF p] have "distinct pages \<and> (\<forall>p\<in>set pages. 1 \<le> p \<and> p \<le> of_nat n)"
    by simp
  with r all_pages_props[of n] show ?thesis by (auto split: if_splits)
qed

lemma range_loop_finite: "\<exists>r. range_loop n (Num a) (Num b) pages = Some r"
proof -
  obtain k :: nat where "b - a < of_nat k" using reals_Archimedean2 by blast
  then show ?thesis
  proof (induction k arbitrary: a pages)
    case 0
    then have "\<not> js_le (Num a) (Num b)" by simp
    then show ?case by (simp add: range_loop_stop)
  next
    case (Suc k)
    show ?case
    proof (cases "a \<le> b")
      case True
      from Suc.prems have "b - (a + 1) < of_nat k" by simp
      from Suc.IH[OF this, of "add_if_in_range n (Num a) pages"] True show ?thesis
        by (subst range_loop_step) simp_all
    next
      case False
      then show ?thesis by (simp add: range_loop_stop)
    qed
  qed
qed

text \<open>
  C8 fails on the code: a token that is a number but not an integer is kept as a page.
  For \<^verbatim>\<open>"1.5"\<close> and three pages the resolver returns the single page 3/2.
\<close>

theorem parsePageRange_fraction:
  "parsePageRange ''1.5'' 3 = Some [3 / 2] \<and> (3 / 2 :: rat) \<notin> \<int>"
proof -
  have "(3 / 2 :: rat) \<notin> \<int>"
  proof
    assume "(3 / 2 :: rat) \<in> \<int>"
    then obtain z :: int where "(3 / 2 :: rat) = of_int z" by (auto elim: Ints_cases)
    then have "(3 :: rat) = of_int (2 * z)" by simp
    then have "(3 :: int) = 2 * z" by (metis of_int_eq_iff of_int_numeral)
    then show False by presburger
  qed
  with parsePageRange_fraction_eval show ?thesis by simp
qed

end
